theory Spec2Isabelle
  imports Main "HOL-Library.Word"
begin

unbundle bit_operations_syntax

section \<open>Shared data\<close>

type_synonym byte = "8 word"

text \<open>\<open>common.Address\<close> is a 20-byte array, compared by value when used as a map key.\<close>

type_synonym address = "160 word"

text \<open>Runtime panics of Go that the modelled functions can raise.\<close>

datatype go_panic = IndexOutOfRange | SliceBoundsOutOfRange | LenOutOfRange

section \<open>Signing-policy store (\<open>client/finalizer/signing_policy_storage.go\<close>)\<close>

text \<open>
  \<open>signingPolicy\<close>: \<open>rewardEpochId\<close> is an \<open>int64\<close> (read as two's complement with
  \<open>sint\<close>), \<open>startVotingRoundId\<close> a \<open>uint32\<close> (word order is the unsigned order).
  The store holds pointers to policies; the model holds the policies themselves, so a
  \<open>nil\<close> policy is not an input of the model.
\<close>

record signingPolicy =
  rewardEpochId :: "64 word"
  startVotingRoundId :: "32 word"
  threshold :: "16 word"
  seed :: int
  voters :: "address list"
  weights :: "16 word list"
  rawBytes :: "byte list"
  blockTimestamp :: "64 word"

record voterData =
  index :: nat
  weight :: "16 word"

record signingPolicyStorage =
  spList :: "signingPolicy list"
  voterMap :: "64 word \<rightharpoonup> (address \<rightharpoonup> voterData)"

definition newSigningPolicyStorage :: signingPolicyStorage where
  "newSigningPolicyStorage = \<lparr>spList = [], voterMap = Map.empty\<rparr>"

subsection \<open>\<open>sort.Find\<close> and \<open>cmp.Compare\<close> of the Go standard library\<close>

text \<open>
  \<open>sort.Find(n, cmp)\<close> keeps \<open>i, j := 0, n\<close> and, while \<open>i < j\<close>, probes
  \<open>h := int(uint(i+j) >> 1)\<close>: \<open>cmp(h) > 0\<close> moves \<open>i\<close> to \<open>h + 1\<close>, anything else
  moves \<open>j\<close> to \<open>h\<close>. It returns \<open>i\<close> and \<open>i < n && cmp(i) == 0\<close>.
\<close>

function find_loop :: "(nat \<Rightarrow> int) \<Rightarrow> nat \<Rightarrow> nat \<Rightarrow> nat" where
  "find_loop cmp i j =
     (if i < j then
        (let h = (i + j) div 2 in
         if cmp h > 0 then find_loop cmp (h + 1) j else find_loop cmp i h)
      else i)"
  by pat_completeness auto
termination
  by (relation "measure (\<lambda>(cmp, i, j). j - i)") auto

declare find_loop.simps [simp del]

definition sort_Find :: "nat \<Rightarrow> (nat \<Rightarrow> int) \<Rightarrow> nat \<times> bool" where
  "sort_Find n cmp = (let i = find_loop cmp 0 n in (i, i < n \<and> cmp i = 0))"

definition cmp_Compare :: "'a::linorder \<Rightarrow> 'a \<Rightarrow> int" where
  "cmp_Compare x y = (if x < y then - 1 else if y < x then 1 else 0)"

subsection \<open>Operations of the store\<close>

text \<open>
  \<open>findByVotingRoundId\<close>. \<open>sort.Find\<close> calls the comparison only at indices below
  \<open>len(s.spList)\<close>, a found index is below the length, and \<open>i - 1\<close> is read only
  when \<open>0 < i \<le> len(s.spList)\<close>; \<open>nil\<close> is \<open>None\<close>.
\<close>

definition findByVotingRoundId :: "signingPolicyStorage \<Rightarrow> 32 word \<Rightarrow> signingPolicy option" where
  "findByVotingRoundId s votingRoundId =
     (case sort_Find (length (spList s))
             (\<lambda>i. cmp_Compare votingRoundId (startVotingRoundId (spList s ! i))) of
        (i, found) \<Rightarrow>
          if found then Some (spList s ! i)
          else if i = 0 then None
          else Some (spList s ! (i - 1)))"

definition GetForVotingRound :: "signingPolicyStorage \<Rightarrow> 32 word \<Rightarrow> signingPolicy option" where
  "GetForVotingRound s votingRoundId = findByVotingRoundId s votingRoundId"

text \<open>
  The two errors \<open>Add\<close> returns. Each message formats one \<open>int64\<close> with \<open>%d\<close>, which the
  constructor carries: \<open>MissingSigningPolicy n\<close> is
  "missing signing policy for reward epoch id n", \<open>LargerStartVotingRoundId n\<close> is
  "signing policy for reward epoch id n has larger start voting round id than previous
  policy".
\<close>

datatype add_error = MissingSigningPolicy "64 word" | LargerStartVotingRoundId "64 word"

text \<open>
  The loop of \<open>Add\<close> over \<open>sp.voters\<close>: a voter already in \<open>vMap\<close> is skipped, and only
  for a new voter is \<open>sp.weights[i]\<close> read, which panics when \<open>i\<close> is not below
  \<open>len(sp.weights)\<close>.
\<close>

fun index_voters ::
  "address list \<Rightarrow> 16 word list \<Rightarrow> nat \<Rightarrow> (address \<rightharpoonup> voterData) \<Rightarrow>
   go_panic + (address \<rightharpoonup> voterData)" where
  "index_voters [] ws i vMap = Inr vMap"
| "index_voters (voter # vs) ws i vMap =
     (if vMap voter = None then
        (if i < length ws
         then index_voters vs ws (Suc i) (vMap(voter \<mapsto> \<lparr>index = i, weight = ws ! i\<rparr>))
         else Inl IndexOutOfRange)
      else index_voters vs ws (Suc i) vMap)"

text \<open>The length of a Go slice is an \<open>int\<close>: at most \<open>2^63 - 1\<close> elements.\<close>

definition max_slice_len :: nat where
  "max_slice_len = 2 ^ 63 - 1"

text \<open>
  \<open>Add\<close> returns the store and the error (\<open>None\<close> is \<open>nil\<close>), or panics. The
  subtraction \<open>sp.rewardEpochId-1\<close> is on \<open>int64\<close> and wraps around. A rejected policy
  returns before anything is written. \<open>append\<close> cannot grow a slice beyond
  \<open>max_slice_len\<close> elements (the runtime panics). The panic of the voter loop happens
  after the list and the map were written; the process ends there, so the model keeps
  no store for it.
\<close>

definition Add ::
  "signingPolicyStorage \<Rightarrow> signingPolicy \<Rightarrow> go_panic + (signingPolicyStorage \<times> add_error option)" where
  "Add s sp =
     (if spList s \<noteq> [] \<and> rewardEpochId (last (spList s)) \<noteq> rewardEpochId sp - 1
      then Inr (s, Some (MissingSigningPolicy (rewardEpochId sp - 1)))
      else if spList s \<noteq> [] \<and> startVotingRoundId sp < startVotingRoundId (last (spList s))
      then Inr (s, Some (LargerStartVotingRoundId (rewardEpochId sp)))
      else if max_slice_len \<le> length (spList s) then Inl LenOutOfRange
      else (case index_voters (voters sp) (weights sp) 0 Map.empty of
              Inl p \<Rightarrow> Inl p
            | Inr vMap \<Rightarrow>
                Inr (\<lparr>spList = spList s @ [sp],
                      voterMap = (voterMap s)(rewardEpochId sp \<mapsto> vMap)\<rparr>, None)))"

text \<open>
  \<open>RemoveByVotingRound\<close>: while the list is non-empty and its first policy starts at or
  before \<open>votingRoundId\<close>, record \<open>uint32(rewardEpochId)\<close>, delete the voter-map entry and
  drop the first policy.
\<close>

fun remove_loop ::
  "signingPolicy list \<Rightarrow> (64 word \<rightharpoonup> (address \<rightharpoonup> voterData)) \<Rightarrow> 32 word \<Rightarrow> 32 word list \<Rightarrow>
   signingPolicy list \<times> (64 word \<rightharpoonup> (address \<rightharpoonup> voterData)) \<times> 32 word list" where
  "remove_loop [] vm votingRoundId removed = ([], vm, removed)"
| "remove_loop (p # ps) vm votingRoundId removed =
     (if startVotingRoundId p \<le> votingRoundId
      then remove_loop ps (vm(rewardEpochId p := None)) votingRoundId
             (removed @ [ucast (rewardEpochId p)])
      else (p # ps, vm, removed))"

definition RemoveByVotingRound ::
  "signingPolicyStorage \<Rightarrow> 32 word \<Rightarrow> signingPolicyStorage \<times> 32 word list" where
  "RemoveByVotingRound s votingRoundId =
     (case remove_loop (spList s) (voterMap s) votingRoundId [] of
        (l, vm, removed) \<Rightarrow> (\<lparr>spList = l, voterMap = vm\<rparr>, removed))"

subsection \<open>Sequences of calls and the properties stated about them\<close>

text \<open>
  \<open>add_all\<close> runs \<open>Add\<close> on each policy in turn and yields the final store when every
  call was accepted (returned \<open>nil\<close>). \<open>run_ops\<close> runs any sequence of \<open>Add\<close> and
  \<open>RemoveByVotingRound\<close> calls; a rejected \<open>Add\<close> leaves the store as it was and the
  sequence goes on, a panic ends it.
\<close>

fun add_all :: "signingPolicyStorage \<Rightarrow> signingPolicy list \<Rightarrow> signingPolicyStorage option" where
  "add_all s [] = Some s"
| "add_all s (sp # sps) =
     (case Add s sp of Inr (s', None) \<Rightarrow> add_all s' sps | _ \<Rightarrow> None)"

datatype store_op = OpAdd signingPolicy | OpRemoveByVotingRound "32 word"

fun run_ops :: "signingPolicyStorage \<Rightarrow> store_op list \<Rightarrow> go_panic + signingPolicyStorage" where
  "run_ops s [] = Inr s"
| "run_ops s (OpAdd sp # ops) =
     (case Add s sp of Inl p \<Rightarrow> Inl p | Inr (s', err) \<Rightarrow> run_ops s' ops)"
| "run_ops s (OpRemoveByVotingRound v # ops) = run_ops (fst (RemoveByVotingRound s v)) ops"

text \<open>
  \<open>epoch_chain\<close>: each policy's reward epoch id is its predecessor's plus one (on
  \<open>int64\<close>, so with wrap-around) and its start voting round is not smaller.
\<close>

fun epoch_chain :: "signingPolicy list \<Rightarrow> bool" where
  "epoch_chain [] = True"
| "epoch_chain [p] = True"
| "epoch_chain (p # q # r) =
     (rewardEpochId q = rewardEpochId p + 1 \<and> startVotingRoundId p \<le> startVotingRoundId q \<and>
      epoch_chain (q # r))"

text \<open>
  \<open>first_wins\<close>: the voter map a policy should get, every voter address mapped to the
  index of its first occurrence and the weight at that index.
\<close>

definition first_index :: "'a list \<Rightarrow> 'a \<Rightarrow> nat" where
  "first_index xs a = length (takeWhile (\<lambda>x. x \<noteq> a) xs)"

definition first_wins :: "address list \<Rightarrow> 16 word list \<Rightarrow> (address \<rightharpoonup> voterData)" where
  "first_wins vs ws =
     (\<lambda>a. if a \<in> set vs then Some \<lparr>index = first_index vs a, weight = ws ! first_index vs a\<rparr>
          else None)"

definition store_inv :: "signingPolicyStorage \<Rightarrow> bool" where
  "store_inv s \<longleftrightarrow>
     epoch_chain (spList s) \<and> length (spList s) \<le> max_slice_len \<and>
     dom (voterMap s) = rewardEpochId ` set (spList s)"

subsection \<open>Concrete policies and stores\<close>

definition test_policy :: "64 word \<Rightarrow> 32 word \<Rightarrow> address list \<Rightarrow> 16 word list \<Rightarrow> signingPolicy" where
  "test_policy e v vs ws =
     \<lparr>rewardEpochId = e, startVotingRoundId = v, threshold = 0, seed = 0, voters = vs,
      weights = ws, rawBytes = [], blockTimestamp = 0\<rparr>"

text \<open>The largest and the smallest \<open>int64\<close> as reward epoch ids.\<close>

definition max_epoch_policy :: signingPolicy where
  "max_epoch_policy = test_policy 0x7FFFFFFFFFFFFFFF 0 [] []"

definition min_epoch_policy :: signingPolicy where
  "min_epoch_policy = test_policy 0x8000000000000000 0 [] []"

definition store5 :: signingPolicyStorage where
  "store5 = \<lparr>spList = [test_policy 5 10 [] []], voterMap = [5 \<mapsto> Map.empty]\<rparr>"

definition store56 :: signingPolicyStorage where
  "store56 = \<lparr>spList = [test_policy 5 10 [] [], test_policy 6 12 [] []],
               voterMap = [5 \<mapsto> Map.empty, 6 \<mapsto> Map.empty]\<rparr>"

text \<open>Two policies of consecutive reward epochs that start at the same voting round.\<close>

definition dup_store :: signingPolicyStorage where
  "dup_store = \<lparr>spList = [test_policy 1 5 [] [], test_policy 2 5 [] []],
               voterMap = [1 \<mapsto> Map.empty, 2 \<mapsto> Map.empty]\<rparr>"

text \<open>A policy whose first voter occurs twice, and the stores it leads to.\<close>

definition voters_policy5 :: signingPolicy where
  "voters_policy5 = test_policy 5 10 [1, 2, 1] [7, 8, 9]"

definition voters_policy6 :: signingPolicy where
  "voters_policy6 = test_policy 6 12 [] []"

definition voters_policy7 :: signingPolicy where
  "voters_policy7 = test_policy 7 12 [3] [4]"

definition voters_store :: signingPolicyStorage where
  "voters_store =
     \<lparr>spList = [voters_policy5, voters_policy6],
      voterMap = [5 \<mapsto> [1 \<mapsto> \<lparr>index = 0, weight = 7\<rparr>, 2 \<mapsto> \<lparr>index = 1, weight = 8\<rparr>],
                  6 \<mapsto> Map.empty]\<rparr>"

definition voters_store7 :: signingPolicyStorage where
  "voters_store7 =
     \<lparr>spList = [voters_policy5, voters_policy6, voters_policy7],
      voterMap = [5 \<mapsto> [1 \<mapsto> \<lparr>index = 0, weight = 7\<rparr>, 2 \<mapsto> \<lparr>index = 1, weight = 8\<rparr>],
                  6 \<mapsto> Map.empty, 7 \<mapsto> [3 \<mapsto> \<lparr>index = 0, weight = 4\<rparr>]]\<rparr>"

section \<open>Retry harness (\<open>ExecuteWithRetry\<close>)\<close>

text \<open>
  \<open>ExecuteStatus\<close> as the harness declares it. \<open>TxRetryInterval\<close> is the constant
  \<open>5 * time.Second\<close>, a \<open>time.Duration\<close> in nanoseconds.
\<close>

record ExecuteStatus =
  Success :: bool
  Message :: string

definition TxRetryInterval :: nat where
  "TxRetryInterval = 5 * 1000000000"

text \<open>
  \<open>ExecuteWithRetry(f, maxRetries)\<close> makes the channel \<open>out\<close>, starts a goroutine and
  returns the channel. The model is the sequence of what that goroutine does: a call of
  \<open>f\<close>, a logged error, a \<open>time.Sleep\<close>, a send on \<open>out\<close>. The operation \<open>f\<close> has
  effects, so its result is given per call: \<open>f ri\<close> is the error of the call made in
  iteration \<open>ri\<close>, \<open>None\<close> for \<open>nil\<close>. \<open>maxRetries\<close> is a Go \<open>int\<close>; the counter
  \<open>ri\<close> starts at 0 and is only compared with it.
\<close>

datatype retry_event =
  is_Call: Call nat
| LogError nat string
| Sleep nat
| is_Send: Send ExecuteStatus

function retry_loop :: "(nat \<Rightarrow> string option) \<Rightarrow> int \<Rightarrow> nat \<Rightarrow> retry_event list" where
  "retry_loop f maxRetries ri =
     (if int ri < maxRetries then
        (case f ri of
           None \<Rightarrow> [Call ri, Send \<lparr>Success = True, Message = []\<rparr>]
         | Some err \<Rightarrow>
             Call ri # LogError ri err # Sleep TxRetryInterval # retry_loop f maxRetries (ri + 1))
      else [Send \<lparr>Success = False, Message = ''max retries reached''\<rparr>])"
  by pat_completeness auto
termination
  by (relation "measure (\<lambda>(f, maxRetries, ri). nat (maxRetries - int ri))") auto

declare retry_loop.simps [simp del]

definition ExecuteWithRetry :: "(nat \<Rightarrow> string option) \<Rightarrow> int \<Rightarrow> retry_event list" where
  "ExecuteWithRetry f maxRetries = retry_loop f maxRetries 0"

text \<open>
  The behaviour in closed form: the calls \<open>a, a + 1, ...\<close> up to the first one below
  \<open>b\<close> that returns \<open>nil\<close>, each failed call followed by its log line and one sleep of
  \<open>TxRetryInterval\<close>; then one status, success after the successful call, failure when
  no call below \<open>b\<close> succeeded.
\<close>

definition failed_attempt :: "(nat \<Rightarrow> string option) \<Rightarrow> nat \<Rightarrow> retry_event list" where
  "failed_attempt f i =
     (case f i of None \<Rightarrow> [] | Some err \<Rightarrow> [Call i, LogError i err, Sleep TxRetryInterval])"

definition retry_trace :: "(nat \<Rightarrow> string option) \<Rightarrow> nat \<Rightarrow> nat \<Rightarrow> retry_event list" where
  "retry_trace f a b =
     (case List.find (\<lambda>k. f k = None) [a..<b] of
        Some k \<Rightarrow> concat (map (failed_attempt f) [a..<k]) @
                  [Call k, Send \<lparr>Success = True, Message = []\<rparr>]
      | None \<Rightarrow> concat (map (failed_attempt f) [a..<b]) @
                [Send \<lparr>Success = False, Message = ''max retries reached''\<rparr>])"

section \<open>The run loop of a submitter (\<open>protocol.Run\<close>)\<close>

text \<open>
  \<open>Run\<close> loops over a \<open>select\<close> on the channels \<open>stopAt\<close> and \<open>ticker.C\<close>. The input
  of the model is the sequence of cases the \<open>select\<close> takes, each with the \<open>int64\<close> it
  received; the output is what the loop does, a call of \<open>r.RunEpoch\<close> or a send on
  \<open>lastEpoch\<close>, and whether the loop has left the \<open>for\<close> (\<open>False\<close>: it waits in the
  \<open>select\<close> for the next value). Every send on \<open>lastEpoch\<close> is taken to be received.
  The comparison \<open>epoch >= stopAfterEpoch\<close> is the signed one.
\<close>

datatype select_case = StopAt "64 word" | Tick "64 word"

datatype run_event = is_RunEpoch: RunEpoch "64 word" | is_LastEpoch: LastEpoch "64 word"

definition MaxInt64 :: "64 word" where
  "MaxInt64 = 0x7FFFFFFFFFFFFFFF"

fun run_loop :: "64 word \<Rightarrow> 64 word \<Rightarrow> select_case list \<Rightarrow> run_event list \<times> bool" where
  "run_loop epoch stopAfterEpoch [] =
     (if stopAfterEpoch \<le>s epoch then ([LastEpoch epoch], True) else ([], False))"
| "run_loop epoch stopAfterEpoch (c # cs) =
     (if stopAfterEpoch \<le>s epoch then ([LastEpoch epoch], True)
      else (case c of
              StopAt n \<Rightarrow>
                (case run_loop epoch n cs of (evs, exited) \<Rightarrow> (LastEpoch epoch # evs, exited))
            | Tick e \<Rightarrow>
                (case run_loop e stopAfterEpoch cs of (evs, exited) \<Rightarrow> (RunEpoch e # evs, exited))))"

text \<open>\<open>var epoch int64\<close> starts at 0 and \<open>stopAfterEpoch\<close> at \<open>math.MaxInt64\<close>.\<close>

definition Run :: "select_case list \<Rightarrow> run_event list \<times> bool" where
  "Run cs = run_loop 0 MaxInt64 cs"

text \<open>The elements of a list up to and including the first one that satisfies \<open>P\<close>.\<close>

definition take_through :: "('a \<Rightarrow> bool) \<Rightarrow> 'a list \<Rightarrow> 'a list" where
  "take_through P xs = takeWhile (\<lambda>x. \<not> P x) xs @ take 1 (dropWhile (\<lambda>x. \<not> P x) xs)"

section \<open>Construction of the submitters (\<open>NewProtocolClient\<close>, \<open>newSubmitter\<close>)\<close>

text \<open>
  The configuration structs are declared outside the files at hand; the records hold
  the fields the constructors read. A duration is a number of nanoseconds. The type
  \<open>'p\<close> stands for a sub-protocol (\<open>*SubProtocol\<close>).
\<close>

record SubmitConfig =
  StartOffset :: int
  TxSubmitRetries :: int

record SubmitSignaturesConfig = SubmitConfig +
  DataFetchRetries :: int
  MaxRounds :: int

record 'p ClientConfig =
  EnabledProtocolVoting :: bool
  Protocol :: "'p list"
  Submit1 :: SubmitConfig
  Submit2 :: SubmitConfig
  SignatureSubmitterCfg :: SubmitSignaturesConfig

record contractSelectors =
  submit1 :: "byte list"
  submit2 :: "byte list"
  submit3 :: "byte list"
  submitSignatures :: "byte list"

text \<open>
  \<open>SubmitterBase\<close> and the two structs that embed it. The chain client, the keys and the
  epoch clock are handles the constructors only store; the model leaves them out.
\<close>

record 'p SubmitterBase =
  selector :: "byte list"
  subProtocols :: "'p list"
  startOffset :: int
  submitRetries :: int
  name :: string

record 'p Submitter = "'p SubmitterBase" +
  epochOffset :: "64 word"

record 'p SignatureSubmitter = "'p SubmitterBase" +
  maxRounds :: int
  dataFetchRetries :: int

definition newSubmitter ::
  "SubmitConfig \<Rightarrow> byte list \<Rightarrow> 'p list \<Rightarrow> 64 word \<Rightarrow> string \<Rightarrow> 'p Submitter" where
  "newSubmitter submitCfg sel sps offset nm =
     \<lparr>selector = sel, subProtocols = sps, startOffset = StartOffset submitCfg,
      submitRetries = max 1 (TxSubmitRetries submitCfg), name = nm, epochOffset = offset\<rparr>"

definition newSignatureSubmitter ::
  "SubmitSignaturesConfig \<Rightarrow> byte list \<Rightarrow> 'p list \<Rightarrow> 'p SignatureSubmitter" where
  "newSignatureSubmitter submitCfg sel sps =
     \<lparr>selector = sel, subProtocols = sps, startOffset = StartOffset submitCfg,
      submitRetries = max 1 (TxSubmitRetries submitCfg), name = ''submitSignatures'',
      maxRounds = MaxRounds submitCfg, dataFetchRetries = DataFetchRetries submitCfg\<rparr>"

text \<open>
  \<open>ProtocolClient\<close> has the fields \<open>submitter1\<close>, \<open>submitter2\<close> and
  \<open>signatureSubmitter\<close>. \<open>NewProtocolClient\<close> returns \<open>nil, nil\<close> when protocol voting
  is disabled (\<open>Inr None\<close>) and the first error of dialling the node and reading the
  chain (\<open>chainError\<close>, a result of the environment) otherwise; the voting epoch is part
  of the handles left out.
\<close>

record 'p ProtocolClient =
  pcSubProtocols :: "'p list"
  submitter1 :: "'p Submitter"
  submitter2 :: "'p Submitter"
  signatureSubmitter :: "'p SignatureSubmitter"

definition NewProtocolClient ::
  "'p ClientConfig \<Rightarrow> string option \<Rightarrow> contractSelectors \<Rightarrow> string + 'p ProtocolClient option" where
  "NewProtocolClient cfg chainError selectors =
     (if \<not> EnabledProtocolVoting cfg then Inr None
      else (case chainError of
              Some err \<Rightarrow> Inl err
            | None \<Rightarrow>
                Inr (Some
                  \<lparr>pcSubProtocols = Protocol cfg,
                   submitter1 = newSubmitter (Submit1 cfg) (submit1 selectors) (Protocol cfg) 0 ''submit1'',
                   submitter2 = newSubmitter (Submit2 cfg) (submit2 selectors) (Protocol cfg) (- 1) ''submit2'',
                   signatureSubmitter =
                     newSignatureSubmitter (SignatureSubmitterCfg cfg) (submitSignatures selectors)
                       (Protocol cfg)\<rparr>)))"

text \<open>
  \<open>ProtocolClient.Run\<close> starts one goroutine per \<open>go\<close> statement and returns \<open>nil\<close>;
  the model is the list of the goroutines it starts, in the order of the statements.
\<close>

datatype 'p goroutine =
  is_SubmitterRun: SubmitterRun "'p Submitter"
| SignatureSubmitterRun "'p SignatureSubmitter"

definition ProtocolClient_Run :: "'p ProtocolClient \<Rightarrow> 'p goroutine list" where
  "ProtocolClient_Run c =
     [SubmitterRun (submitter1 c), SubmitterRun (submitter2 c),
      SignatureSubmitterRun (signatureSubmitter c)]"

text \<open>The name of a started submitter and, for a plain one, its epoch offset as an integer.\<close>

fun goroutine_name :: "'p goroutine \<Rightarrow> string" where
  "goroutine_name (SubmitterRun s) = name s"
| "goroutine_name (SignatureSubmitterRun s) = name s"

fun goroutine_offset :: "'p goroutine \<Rightarrow> int option" where
  "goroutine_offset (SubmitterRun s) = Some (sint (epochOffset s))"
| "goroutine_offset (SignatureSubmitterRun s) = None"

subsection \<open>A concrete configuration\<close>

definition test_config :: "nat ClientConfig" where
  "test_config =
     \<lparr>EnabledProtocolVoting = True, Protocol = [0, 1],
      Submit1 = \<lparr>StartOffset = 0, TxSubmitRetries = 0\<rparr>,
      Submit2 = \<lparr>StartOffset = 0, TxSubmitRetries = 3\<rparr>,
      SignatureSubmitterCfg =
        \<lparr>StartOffset = 0, TxSubmitRetries = 1, DataFetchRetries = 1, MaxRounds = 2\<rparr>\<rparr>"

definition test_selectors :: contractSelectors where
  "test_selectors =
     \<lparr>submit1 = [1, 1, 1, 1], submit2 = [2, 2, 2, 2], submit3 = [3, 3, 3, 3],
      submitSignatures = [4, 4, 4, 4]\<rparr>"

definition test_client :: "nat ProtocolClient" where
  "test_client =
     \<lparr>pcSubProtocols = [0, 1],
      submitter1 = \<lparr>selector = [1, 1, 1, 1], subProtocols = [0, 1], startOffset = 0,
                    submitRetries = 1, name = ''submit1'', epochOffset = 0\<rparr>,
      submitter2 = \<lparr>selector = [2, 2, 2, 2], subProtocols = [0, 1], startOffset = 0,
                    submitRetries = 3, name = ''submit2'', epochOffset = - 1\<rparr>,
      signatureSubmitter =
        \<lparr>selector = [4, 4, 4, 4], subProtocols = [0, 1], startOffset = 0,
         submitRetries = 1, name = ''submitSignatures'', maxRounds = 2, dataFetchRetries = 1\<rparr>\<rparr>"

section \<open>Signature submitter (\<open>client/protocol/submitter.go\<close>)\<close>

text \<open>
  A sub-protocol's answer, and the status the fetch delivers on its channel: the
  \<open>ExecuteStatus\<close> of the harness with the value it carries. The value is a pointer in
  the source; the model holds the response itself.
\<close>

record SubProtocolResponse =
  Status :: string
  Data :: "byte list"
  AdditionalData :: "byte list"

record FetchStatus = ExecuteStatus +
  Value :: SubProtocolResponse

text \<open>
  Modelled from the spec: \<open>shared.Uint32toBytes\<close> and \<open>shared.Uint16toBytes\<close> are not
  among the files at hand. The spec gives the entry layout as big-endian wherever a
  field is wider than one byte, so the helpers put the most significant byte first.
\<close>

definition Uint32toBytes :: "32 word \<Rightarrow> byte list" where
  "Uint32toBytes x = [ucast (drop_bit 24 x), ucast (drop_bit 16 x), ucast (drop_bit 8 x), ucast x]"

definition Uint16toBytes :: "16 word \<Rightarrow> byte list" where
  "Uint16toBytes x = [ucast (drop_bit 8 x), ucast x]"

text \<open>
  What the submitter gets from outside:
  \<^item> \<open>signData d\<close> is \<open>crypto.Sign(accounts.TextHash(crypto.Keccak256(d)), key)\<close> with
    the signer's key: an error or the signature bytes;
  \<^item> \<open>getDataWithRetry r i e\<close> is the status read in round \<open>r\<close> from the channel of
    sub-protocol \<open>i\<close>, whose fetch was asked for epoch \<open>e\<close>;
  \<^item> \<open>submit r payload\<close> is the result of \<open>s.submit(payload)\<close> in round \<open>r\<close>.
\<close>

record world =
  signData :: "byte list \<Rightarrow> string + byte list"
  getDataWithRetry :: "nat \<Rightarrow> nat \<Rightarrow> 64 word \<Rightarrow> FetchStatus"
  submit :: "nat \<Rightarrow> byte list \<Rightarrow> bool"

text \<open>
  \<open>WritePayload\<close> returns the error of the signing, unchanged buffer, or the buffer with
  the entry appended; \<open>signature[64]\<close> panics on a signature of fewer than 65 bytes.
  \<open>uint32(currentEpoch - 1)\<close> and \<open>uint16(104 + len(data.AdditionalData))\<close> truncate.
\<close>

definition WritePayload ::
  "world \<Rightarrow> byte list \<Rightarrow> 64 word \<Rightarrow> SubProtocolResponse \<Rightarrow> go_panic + (string + byte list)" where
  "WritePayload w buffer currentEpoch data =
     (case signData w (Data data) of
        Inl err \<Rightarrow> Inr (Inl (''error signing submitSignatures data: '' @ err))
      | Inr signature \<Rightarrow>
          if length signature \<le> 64 then Inl IndexOutOfRange
          else
            (let epochBytes = Uint32toBytes (ucast (currentEpoch - 1));
                 lengthBytes = Uint16toBytes (of_nat (104 + length (AdditionalData data)))
             in Inr (Inr (buffer @ [100] @ epochBytes @ lengthBytes @ [0] @ Data data @
                          [signature ! 64 + 27] @ take 32 signature @ take 32 (drop 32 signature) @
                          AdditionalData data))))"

text \<open>
  What a round does that can be seen from outside: it asks sub-protocol \<open>i\<close> for the data
  of an epoch, it submits a payload (with the result), or it logs that it got no new
  data.
\<close>

datatype sig_event =
  Fetch nat "64 word"
| is_Submit: Submit "byte list" bool
| NoNewData

text \<open>
  The second inner loop of \<open>RunEpoch\<close>, over the indices of \<open>s.subProtocols\<close>: it skips
  an index that is not outstanding, a failed fetch and an entry that did not write, and
  otherwise keeps the extended buffer and removes the index from \<open>protocolsToSend\<close>. It
  calls \<open>s.WritePayload(buffer, currentEpoch-1, data.Value)\<close>.
\<close>

fun collect_round ::
  "world \<Rightarrow> nat \<Rightarrow> 64 word \<Rightarrow> nat list \<Rightarrow> byte list \<Rightarrow> nat set \<Rightarrow>
   go_panic + (byte list \<times> nat set)" where
  "collect_round w r currentEpoch [] buffer protocolsToSend = Inr (buffer, protocolsToSend)"
| "collect_round w r currentEpoch (i # rest) buffer protocolsToSend =
     (if i \<notin> protocolsToSend then collect_round w r currentEpoch rest buffer protocolsToSend
      else
        (let data = getDataWithRetry w r i (currentEpoch - 1) in
         if \<not> Success data then collect_round w r currentEpoch rest buffer protocolsToSend
         else
           (case WritePayload w buffer (currentEpoch - 1) (Value data) of
              Inl p \<Rightarrow> Inl p
            | Inr (Inl err) \<Rightarrow> collect_round w r currentEpoch rest buffer protocolsToSend
            | Inr (Inr buffer') \<Rightarrow>
                collect_round w r currentEpoch rest buffer' (protocolsToSend - {i}))))"

text \<open>
  The first inner loop: one fetch for \<open>currentEpoch-1\<close> per outstanding sub-protocol, in
  the order of \<open>s.subProtocols\<close>.
\<close>

definition launched :: "'p SignatureSubmitter \<Rightarrow> 64 word \<Rightarrow> nat set \<Rightarrow> sig_event list" where
  "launched s currentEpoch protocolsToSend =
     map (\<lambda>i. Fetch i (currentEpoch - 1))
       (filter (\<lambda>i. i \<in> protocolsToSend) [0..<length (subProtocols s)])"

text \<open>
  One round of the outer loop: launch the fetches, clone the outstanding set, collect
  into a buffer that starts with the selector, and submit when the set has shrunk; a
  failed submission puts the clone back.
\<close>

definition sig_round ::
  "world \<Rightarrow> 'p SignatureSubmitter \<Rightarrow> 64 word \<Rightarrow> nat \<Rightarrow> nat set \<Rightarrow>
   go_panic + (nat set \<times> sig_event list)" where
  "sig_round w s currentEpoch r protocolsToSend =
     (let protocolsToSendCopy = protocolsToSend in
      case collect_round w r currentEpoch [0..<length (subProtocols s)] (selector s)
             protocolsToSend of
        Inl p \<Rightarrow> Inl p
      | Inr (buffer, remaining) \<Rightarrow>
          if card remaining < card protocolsToSendCopy then
            (if \<not> submit w r buffer
             then Inr (protocolsToSendCopy,
                       launched s currentEpoch protocolsToSend @ [Submit buffer False])
             else Inr (remaining, launched s currentEpoch protocolsToSend @ [Submit buffer True]))
          else Inr (remaining, launched s currentEpoch protocolsToSend @ [NoNewData]))"

text \<open>
  The outer loop \<open>for i := 0; i < s.maxRounds && protocolsToSend.Cardinality() > 0; i++\<close>,
  and \<open>RunEpoch\<close>, which starts it with every index outstanding. The result is the set
  left outstanding and the events of all rounds.
\<close>

function sig_rounds ::
  "world \<Rightarrow> 'p SignatureSubmitter \<Rightarrow> 64 word \<Rightarrow> nat \<Rightarrow> nat set \<Rightarrow>
   go_panic + (nat set \<times> sig_event list)" where
  "sig_rounds w s currentEpoch i protocolsToSend =
     (if int i < maxRounds s \<and> card protocolsToSend > 0 then
        (case sig_round w s currentEpoch i protocolsToSend of
           Inl p \<Rightarrow> Inl p
         | Inr (protocolsToSend', evs) \<Rightarrow>
             (case sig_rounds w s currentEpoch (i + 1) protocolsToSend' of
                Inl p \<Rightarrow> Inl p
              | Inr (final, evs') \<Rightarrow> Inr (final, evs @ evs')))
      else Inr (protocolsToSend, []))"
  by pat_completeness auto
termination
  by (relation "measure (\<lambda>(w, s, currentEpoch, i, protocolsToSend). nat (maxRounds s - int i))") auto

declare sig_rounds.simps [simp del]

definition SignatureSubmitter_RunEpoch ::
  "world \<Rightarrow> 'p SignatureSubmitter \<Rightarrow> 64 word \<Rightarrow> go_panic + (nat set \<times> sig_event list)" where
  "SignatureSubmitter_RunEpoch w s currentEpoch =
     sig_rounds w s currentEpoch 0 {0..<length (subProtocols s)}"

subsection \<open>Concrete worlds and submitters\<close>

text \<open>
  A fetch that succeeds with 38 bytes of data and one that fails; a signer that always
  returns 65 zero bytes. In \<open>one_world\<close> every fetch and every submission succeeds. In
  \<open>three_world\<close> the fetch of sub-protocol 2 fails in round 0 and the submission of
  round 0 fails.
\<close>

definition ok_response :: FetchStatus where
  "ok_response =
     \<lparr>Success = True, Message = [],
      Value = \<lparr>Status = ''OK'', Data = replicate 38 0, AdditionalData = []\<rparr>\<rparr>"

definition failed_response :: FetchStatus where
  "failed_response =
     \<lparr>Success = False, Message = ''max retries reached'',
      Value = \<lparr>Status = [], Data = [], AdditionalData = []\<rparr>\<rparr>"

definition one_world :: world where
  "one_world =
     \<lparr>signData = (\<lambda>d. Inr (replicate 65 0)),
      getDataWithRetry = (\<lambda>r i e. ok_response),
      submit = (\<lambda>r payload. True)\<rparr>"

definition one_submitter :: "nat SignatureSubmitter" where
  "one_submitter =
     \<lparr>selector = [4, 4, 4, 4], subProtocols = [0], startOffset = 0, submitRetries = 1,
      name = ''submitSignatures'', maxRounds = 1, dataFetchRetries = 1\<rparr>"

definition three_world :: world where
  "three_world =
     \<lparr>signData = (\<lambda>d. Inr (replicate 65 0)),
      getDataWithRetry = (\<lambda>r i e. if r = 0 \<and> i = 2 then failed_response else ok_response),
      submit = (\<lambda>r payload. r \<noteq> 0)\<rparr>"

definition three_submitter :: "nat SignatureSubmitter" where
  "three_submitter =
     \<lparr>selector = [4, 4, 4, 4], subProtocols = [0, 1, 2], startOffset = 0, submitRetries = 1,
      name = ''submitSignatures'', maxRounds = 2, dataFetchRetries = 1\<rparr>"

text \<open>
  The entry \<open>WritePayload\<close> writes in these worlds, for given bytes of the epoch field:
  protocol id 100, the epoch, the length 104, type 0, the data, \<open>V = 0 + 27\<close>, \<open>R\<close>, \<open>S\<close>.
\<close>

definition entry_with_epoch :: "byte list \<Rightarrow> byte list" where
  "entry_with_epoch epochBytes =
     [100] @ epochBytes @ [0, 104] @ [0] @ replicate 38 0 @ [27] @ replicate 32 0 @ replicate 32 0"

section \<open>Signing-policy hash (\<open>SigningPolicyHash\<close>)\<close>

text \<open>
  A \<open>[]byte\<close> is a view of an array: \<open>backing\<close> holds the cells from the first byte of
  the slice to the end of its capacity, \<open>slen\<close> is its length, and the capacity is the
  number of cells. The bytes of the slice are the first \<open>slen\<close> cells. Go checks the
  bounds of a slice expression \<open>s[lo:hi]\<close> on a slice against the capacity, not the
  length.
\<close>

record byte_slice =
  backing :: "byte list"
  slen :: nat

definition wf_slice :: "byte_slice \<Rightarrow> bool" where
  "wf_slice s \<longleftrightarrow> slen s \<le> length (backing s)"

definition slice_elems :: "byte_slice \<Rightarrow> byte list" where
  "slice_elems s = take (slen s) (backing s)"

definition slice_cap :: "byte_slice \<Rightarrow> nat" where
  "slice_cap s = length (backing s)"

definition slice_range :: "byte_slice \<Rightarrow> nat \<Rightarrow> nat \<Rightarrow> go_panic + byte list" where
  "slice_range s lo hi =
     (if lo \<le> hi \<and> hi \<le> slice_cap s then Inr (take (hi - lo) (drop lo (backing s)))
      else Inl SliceBoundsOutOfRange)"

text \<open>
  \<open>append(s, xs...)\<close> writes into the spare capacity when \<open>xs\<close> fits; otherwise it
  allocates an array of a capacity the runtime chooses, \<open>growcap\<close> of the old capacity
  and the needed length (never less than the needed length), copies the slice and leaves
  the spare cells zero.
\<close>

definition go_append :: "(nat \<Rightarrow> nat \<Rightarrow> nat) \<Rightarrow> byte_slice \<Rightarrow> byte list \<Rightarrow> byte_slice" where
  "go_append growcap s xs =
     (if slen s + length xs \<le> slice_cap s
      then \<lparr>backing = take (slen s) (backing s) @ xs @ drop (slen s + length xs) (backing s),
            slen = slen s + length xs\<rparr>
      else \<lparr>backing = take (slen s) (backing s) @ xs @
                       replicate (growcap (slice_cap s) (slen s + length xs) - (slen s + length xs)) 0,
            slen = slen s + length xs\<rparr>)"

text \<open>The first statement of \<open>SigningPolicyHash\<close>: pad with zero bytes to a multiple of 32.\<close>

definition pad_policy :: "(nat \<Rightarrow> nat \<Rightarrow> nat) \<Rightarrow> byte_slice \<Rightarrow> byte_slice" where
  "pad_policy growcap signingPolicy =
     (if slen signingPolicy mod 32 \<noteq> 0
      then go_append growcap signingPolicy (replicate (32 - slen signingPolicy mod 32) 0)
      else signingPolicy)"

text \<open>
  The loop \<open>for i := 2; i < len(signingPolicy)/32; i++\<close>. \<open>crypto.Keccak256\<close> hashes the
  concatenation of its arguments; the hash function is a parameter of the model.
\<close>

function hash_loop ::
  "(byte list \<Rightarrow> byte list) \<Rightarrow> byte_slice \<Rightarrow> nat \<Rightarrow> byte list \<Rightarrow> go_panic + byte list" where
  "hash_loop Keccak256 signingPolicy i hash =
     (if i < slen signingPolicy div 32 then
        (case slice_range signingPolicy (i * 32) ((i + 1) * 32) of
           Inl p \<Rightarrow> Inl p
         | Inr t32 \<Rightarrow> hash_loop Keccak256 signingPolicy (i + 1) (Keccak256 (hash @ t32)))
      else Inr hash)"
  by pat_completeness auto
termination
  by (relation "measure (\<lambda>(K, s, i, h). slen s div 32 - i)") auto

declare hash_loop.simps [simp del]

definition SigningPolicyHash ::
  "(byte list \<Rightarrow> byte list) \<Rightarrow> (nat \<Rightarrow> nat \<Rightarrow> nat) \<Rightarrow> byte_slice \<Rightarrow> go_panic + byte list" where
  "SigningPolicyHash Keccak256 growcap signingPolicy =
     (let signingPolicy = pad_policy growcap signingPolicy in
      case slice_range signingPolicy 0 32 of
        Inl p \<Rightarrow> Inl p
      | Inr tile0 \<Rightarrow>
          (case slice_range signingPolicy 32 64 of
             Inl p \<Rightarrow> Inl p
           | Inr tile1 \<Rightarrow> hash_loop Keccak256 signingPolicy 2 (Keccak256 (tile0 @ tile1))))"

subsection \<open>The hash as the specification words it\<close>

text \<open>
  "Let \<open>policy\<close> be the canonical bytes, zero-padded to a multiple of 32", then
  \<open>h := keccak256(policy[0..32] || policy[32..64])\<close> and, for \<open>i\<close> from 2 below
  \<open>|policy|/32\<close>, \<open>h := keccak256(h || policy[i*32..(i+1)*32])\<close>: a left fold over the
  32-byte tiles.
\<close>

definition zero_pad :: "byte list \<Rightarrow> byte list" where
  "zero_pad bs = bs @ replicate ((32 - length bs mod 32) mod 32) 0"

definition tile :: "byte list \<Rightarrow> nat \<Rightarrow> byte list" where
  "tile policy i = take 32 (drop (i * 32) policy)"

definition tiled_keccak :: "(byte list \<Rightarrow> byte list) \<Rightarrow> byte list \<Rightarrow> byte list" where
  "tiled_keccak Keccak256 bs =
     (let policy = zero_pad bs in
      foldl (\<lambda>h i. Keccak256 (h @ tile policy i)) (Keccak256 (tile policy 0 @ tile policy 1))
        [2..<length policy div 32])"

subsection \<open>Concrete slices\<close>

text \<open>
  A stand-in hash that returns the length of its input as one byte, and a runtime that
  allocates exactly the needed capacity. Slices of 70 bytes, of the same bytes padded
  to 96, of 32 bytes with capacity 32 and with capacity 64, and the empty slice.
\<close>

definition length_hash :: "byte list \<Rightarrow> byte list" where
  "length_hash b = [of_nat (length b)]"

definition exact_cap :: "nat \<Rightarrow> nat \<Rightarrow> nat" where
  "exact_cap oldcap newlen = newlen"

definition policy70 :: byte_slice where
  "policy70 = \<lparr>backing = replicate 70 1, slen = 70\<rparr>"

definition policy96 :: byte_slice where
  "policy96 = \<lparr>backing = replicate 70 1 @ replicate 26 0, slen = 96\<rparr>"

definition policy32 :: byte_slice where
  "policy32 = \<lparr>backing = replicate 32 1, slen = 32\<rparr>"

definition policy32_cap64 :: byte_slice where
  "policy32_cap64 = \<lparr>backing = replicate 32 1 @ replicate 32 0, slen = 32\<rparr>"

definition empty_policy :: byte_slice where
  "empty_policy = \<lparr>backing = [], slen = 0\<rparr>"

text \<open>
  A slice of 31 bytes with no spare capacity, and a runtime that allocates 64 cells when
  such a slice grows (Go's allocator doubles the capacity 31 and rounds 62 up to its
  size class 64).
\<close>

definition policy31 :: byte_slice where
  "policy31 = \<lparr>backing = replicate 31 1, slen = 31\<rparr>"

definition cap64 :: "nat \<Rightarrow> nat \<Rightarrow> nat" where
  "cap64 oldcap newlen = 64"

section \<open>Proofs\<close>

subsection \<open>The signing-policy store: auxiliary facts\<close>

lemma epoch_chain_snoc:
  "epoch_chain (xs @ [sp]) \<longleftrightarrow>
     epoch_chain xs \<and>
     (xs = [] \<or> (rewardEpochId sp = rewardEpochId (last xs) + 1 \<and>
                 startVotingRoundId (last xs) \<le> startVotingRoundId sp))"
  by (induction xs rule: epoch_chain.induct) auto

lemma Add_accepted_spList:
  assumes "Add s sp = Inr (s', None)"
  shows "spList s' = spList s @ [sp]"
    and "spList s = [] \<or> (rewardEpochId sp = rewardEpochId (last (spList s)) + 1 \<and>
           startVotingRoundId (last (spList s)) \<le> startVotingRoundId sp)"
    and "length (spList s) < max_slice_len"
  using assms by (auto simp: Add_def split: if_splits sum.splits)

lemma Add_preserves_chain:
  "Add s sp = Inr (s', None) \<Longrightarrow> epoch_chain (spList s) \<Longrightarrow> epoch_chain (spList s')"
  using Add_accepted_spList[of s sp s'] by (auto simp: epoch_chain_snoc)

lemma add_all_chain:
  "add_all s sps = Some s' \<Longrightarrow> epoch_chain (spList s) \<Longrightarrow> epoch_chain (spList s')"
proof (induction sps arbitrary: s)
  case Nil then show ?case by simp
next
  case (Cons sp sps)
  then show ?case
    by (auto split: sum.splits option.splits prod.splits dest: Add_preserves_chain)
qed

lemma epoch_chain_sorted: "epoch_chain xs \<Longrightarrow> sorted (map startVotingRoundId xs)"
proof (induction xs rule: epoch_chain.induct)
  case (3 p q r)
  then show ?case by (simp add: sorted2 del: sorted_wrt.simps)
qed auto

lemma find_loop_spec:
  "(\<forall>a b. a \<le> b \<and> b < n \<and> cmp b > 0 \<longrightarrow> cmp a > 0) \<Longrightarrow>
   i \<le> j \<Longrightarrow> j \<le> n \<Longrightarrow> (\<forall>k<i. cmp k > 0) \<Longrightarrow>
   (\<forall>k. j \<le> k \<and> k < n \<longrightarrow> cmp k \<le> 0) \<Longrightarrow>
     i \<le> find_loop cmp i j \<and> find_loop cmp i j \<le> j \<and>
     (\<forall>k < find_loop cmp i j. cmp k > 0) \<and>
     (\<forall>k. find_loop cmp i j \<le> k \<and> k < n \<longrightarrow> cmp k \<le> 0)"
proof (induction cmp i j rule: find_loop.induct)
  case (1 cmp i j)
  note pre = "1.prems"(1)
  show ?case
  proof (cases "i < j")
    case False
    then have "find_loop cmp i j = i" by (subst find_loop.simps) simp
    moreover have "i = j" using False "1.prems"(2) by simp
    ultimately show ?thesis using "1.prems"(4,5) by simp
  next
    case True
    define h where "h = (i + j) div 2"
    have hb: "i \<le> h" "h < j" using True by (auto simp: h_def)
    have hn: "h < n" using hb(2) "1.prems"(3) by simp
    show ?thesis
    proof (cases "cmp h > 0")
      case pos: True
      have eq: "find_loop cmp i j = find_loop cmp (h + 1) j"
        by (subst find_loop.simps) (use True pos in \<open>simp add: h_def Let_def\<close>)
      have below: "\<forall>k<h + 1. cmp k > 0"
      proof (intro allI impI)
        fix k assume "k < h + 1"
        then have "k \<le> h \<and> h < n \<and> cmp h > 0" using hn pos by simp
        then show "cmp k > 0" using pre by blast
      qed
      have le: "h + 1 \<le> j" using hb(2) by simp
      have "h + 1 \<le> find_loop cmp (h + 1) j \<and> find_loop cmp (h + 1) j \<le> j \<and>
        (\<forall>k<find_loop cmp (h + 1) j. 0 < cmp k) \<and>
        (\<forall>k. find_loop cmp (h + 1) j \<le> k \<and> k < n \<longrightarrow> cmp k \<le> 0)"
        by (rule "1.IH"(1)[OF True h_def pos pre le "1.prems"(3) below "1.prems"(5)])
      then show ?thesis unfolding eq using hb(1) by simp
    next
      case npos: False
      have eq: "find_loop cmp i j = find_loop cmp i h"
        by (subst find_loop.simps) (use True npos in \<open>simp add: h_def Let_def\<close>)
      have above: "\<forall>k. h \<le> k \<and> k < n \<longrightarrow> cmp k \<le> 0"
      proof (intro allI impI)
        fix k assume k: "h \<le> k \<and> k < n"
        show "cmp k \<le> 0"
        proof (rule ccontr)
          assume "\<not> cmp k \<le> 0"
          then have "h \<le> k \<and> k < n \<and> cmp k > 0" using k by simp
          then have "cmp h > 0" using pre by blast
          then show False using npos by simp
        qed
      qed
      have le: "h \<le> n" using hn by simp
      have "i \<le> find_loop cmp i h \<and> find_loop cmp i h \<le> h \<and>
        (\<forall>k<find_loop cmp i h. 0 < cmp k) \<and>
        (\<forall>k. find_loop cmp i h \<le> k \<and> k < n \<longrightarrow> cmp k \<le> 0)"
        by (rule "1.IH"(2)[OF True h_def npos pre hb(1) le "1.prems"(4) above])
      then show ?thesis unfolding eq using hb(2) by simp
    qed
  qed
qed

lemma cmp_Compare_pos: "cmp_Compare v x > 0 \<longleftrightarrow> x < v"
  by (auto simp: cmp_Compare_def)

lemma cmp_Compare_le0: "cmp_Compare v x \<le> 0 \<longleftrightarrow> v \<le> x"
  by (auto simp: cmp_Compare_def)

lemma cmp_Compare_eq0: "cmp_Compare v x = 0 \<longleftrightarrow> v = x"
  by (auto simp: cmp_Compare_def)

lemma sort_Find_sorted:
  fixes xs :: "signingPolicy list" and v :: "32 word"
  assumes srt: "sorted (map startVotingRoundId xs)"
  defines "r \<equiv> find_loop (\<lambda>i. cmp_Compare v (startVotingRoundId (xs ! i))) 0 (length xs)"
  shows "r \<le> length xs"
    and "\<forall>k<r. startVotingRoundId (xs ! k) < v"
    and "\<forall>k. r \<le> k \<and> k < length xs \<longrightarrow> v \<le> startVotingRoundId (xs ! k)"
proof -
  let ?c = "\<lambda>i. cmp_Compare v (startVotingRoundId (xs ! i))"
  have pre: "\<forall>a b. a \<le> b \<and> b < length xs \<and> ?c b > 0 \<longrightarrow> ?c a > 0"
  proof (intro allI impI)
    fix a b assume ab: "a \<le> b \<and> b < length xs \<and> ?c b > 0"
    have "map startVotingRoundId xs ! a \<le> map startVotingRoundId xs ! b"
      by (rule sorted_nth_mono[OF srt]) (use ab in simp_all)
    then have "startVotingRoundId (xs ! a) \<le> startVotingRoundId (xs ! b)"
      using ab by simp
    moreover have "startVotingRoundId (xs ! b) < v"
      using ab by (simp add: cmp_Compare_pos)
    ultimately show "?c a > 0" by (simp add: cmp_Compare_pos)
  qed
  have "0 \<le> find_loop ?c 0 (length xs) \<and> find_loop ?c 0 (length xs) \<le> length xs \<and>
     (\<forall>k < find_loop ?c 0 (length xs). ?c k > 0) \<and>
     (\<forall>k. find_loop ?c 0 (length xs) \<le> k \<and> k < length xs \<longrightarrow> ?c k \<le> 0)"
    by (rule find_loop_spec[OF pre]) simp_all
  then have "r \<le> length xs \<and> (\<forall>k < r. ?c k > 0) \<and>
     (\<forall>k. r \<le> k \<and> k < length xs \<longrightarrow> ?c k \<le> 0)"
    unfolding r_def by simp
  then show "r \<le> length xs"
    and "\<forall>k<r. startVotingRoundId (xs ! k) < v"
    and "\<forall>k. r \<le> k \<and> k < length xs \<longrightarrow> v \<le> startVotingRoundId (xs ! k)"
    by (simp_all add: cmp_Compare_pos cmp_Compare_le0)
qed

lemma findByVotingRoundId_sorted:
  fixes s :: signingPolicyStorage and v :: "32 word"
  assumes srt: "sorted (map startVotingRoundId (spList s))"
  shows "case findByVotingRoundId s v of
           None \<Rightarrow> \<forall>p\<in>set (spList s). v < startVotingRoundId p
         | Some p \<Rightarrow> p \<in> set (spList s) \<and> startVotingRoundId p \<le> v \<and>
                     (\<forall>q\<in>set (spList s). startVotingRoundId q \<le> v \<longrightarrow>
                        startVotingRoundId q \<le> startVotingRoundId p)"
proof -
  let ?xs = "spList s"
  let ?c = "\<lambda>i. cmp_Compare v (startVotingRoundId (?xs ! i))"
  define r where "r = find_loop ?c 0 (length ?xs)"
  note F = sort_Find_sorted[OF srt, of v, folded r_def]
  have mono: "startVotingRoundId (?xs ! a) \<le> startVotingRoundId (?xs ! b)"
    if "a \<le> b" "b < length ?xs" for a b
    using sorted_nth_mono[OF srt, of a b] that by simp
  have fb: "findByVotingRoundId s v =
      (if r < length ?xs \<and> v = startVotingRoundId (?xs ! r) then Some (?xs ! r)
       else if r = 0 then None else Some (?xs ! (r - 1)))"
    by (simp add: findByVotingRoundId_def sort_Find_def Let_def r_def cmp_Compare_eq0)
  consider (found) "r < length ?xs" "v = startVotingRoundId (?xs ! r)"
    | (zero) "\<not> (r < length ?xs \<and> v = startVotingRoundId (?xs ! r))" "r = 0"
    | (pred) "\<not> (r < length ?xs \<and> v = startVotingRoundId (?xs ! r))" "r \<noteq> 0"
    by blast
  then show ?thesis
  proof cases
    case found
    have res: "findByVotingRoundId s v = Some (?xs ! r)"
      unfolding fb using found by simp
    show ?thesis unfolding res using found by (auto)
  next
    case zero
    have res: "findByVotingRoundId s v = None"
      unfolding fb using zero by auto
    have "v < startVotingRoundId p" if pin: "p \<in> set ?xs" for p
    proof -
      obtain k where k: "k < length ?xs" "p = ?xs ! k" using pin by (auto simp: in_set_conv_nth)
      have "0 < length ?xs" using k(1) by (cases "spList s") simp_all
      then have "v \<noteq> startVotingRoundId (?xs ! 0)" using zero by simp
      moreover have "v \<le> startVotingRoundId (?xs ! 0)" using F(3) zero(2) \<open>0 < length ?xs\<close> by simp
      moreover have "startVotingRoundId (?xs ! 0) \<le> startVotingRoundId (?xs ! k)"
        using mono[of 0 k] k by simp
      ultimately show ?thesis using k by simp
    qed
    then show ?thesis unfolding res by simp
  next
    case pred
    have rl: "r - 1 < length ?xs" "r - 1 < r" using pred F(1) by simp_all
    have res: "findByVotingRoundId s v = Some (?xs ! (r - 1))"
      unfolding fb using pred by auto
    have lt: "startVotingRoundId (?xs ! (r - 1)) < v" using F(2) rl by simp
    have "startVotingRoundId q \<le> startVotingRoundId (?xs ! (r - 1))"
      if qin: "q \<in> set ?xs" and qle: "startVotingRoundId q \<le> v" for q
    proof -
      obtain k where k: "k < length ?xs" "q = ?xs ! k" using qin by (auto simp: in_set_conv_nth)
      have "k < r"
      proof (rule ccontr)
        assume "\<not> k < r"
        then have rk: "r \<le> k" by simp
        then have "r < length ?xs" using k by simp
        then have "v \<noteq> startVotingRoundId (?xs ! r)" using pred by simp
        moreover have "v \<le> startVotingRoundId (?xs ! r)" using F(3) \<open>r < length ?xs\<close> by simp
        moreover have "startVotingRoundId (?xs ! r) \<le> startVotingRoundId (?xs ! k)"
          using mono[OF rk k(1)] .
        ultimately show False using qle k(2) by simp
      qed
      then have "k \<le> r - 1" by simp
      then show ?thesis using mono[OF _ rl(1)] k(2) by simp
    qed
    then show ?thesis unfolding res using rl lt by (simp)
  qed
qed

lemma epoch_chain_nth:
  "epoch_chain xs \<Longrightarrow> Suc i < length xs \<Longrightarrow>
     rewardEpochId (xs ! Suc i) = rewardEpochId (xs ! i) + 1 \<and>
     startVotingRoundId (xs ! i) \<le> startVotingRoundId (xs ! Suc i)"
proof (induction xs arbitrary: i rule: epoch_chain.induct)
  case (3 p q r)
  then show ?case by (cases i) auto
qed auto

lemma sint_succ:
  fixes x :: "64 word"
  assumes "x \<noteq> 0x7FFFFFFFFFFFFFFF"
  shows "sint (x + 1) = sint x + 1"
proof -
  have ne: "sint x \<noteq> 2 ^ 63 - 1"
  proof
    assume "sint x = 2 ^ 63 - 1"
    then have "sint x = sint (0x7FFFFFFFFFFFFFFF :: 64 word)" by simp
    then have "x = 0x7FFFFFFFFFFFFFFF" by (rule signed_word_eqI)
    then show False using assms by simp
  qed
  have "sint x < 2 ^ 63" using sint_lt[of x] by simp
  then have lt: "sint x + 1 < 2 ^ 63" using ne by simp
  have ge: "- (2 ^ 63) \<le> sint x + 1" using sint_ge[of x] by simp
  have "sint (x + 1) = signed_take_bit 63 (sint x + 1)"
    by (simp add: sint_word_ariths)
  also have "\<dots> = sint x + 1"
    by (rule signed_take_bit_int_eq_self) (use lt ge in simp_all)
  finally show ?thesis .
qed

lemma epoch_chain_offset:
  "epoch_chain xs \<Longrightarrow> i < length xs \<Longrightarrow> rewardEpochId (xs ! i) = rewardEpochId (xs ! 0) + of_nat i"
proof (induction i)
  case 0 then show ?case by simp
next
  case (Suc i)
  then show ?case using epoch_chain_nth[of xs i] by simp
qed

lemma of_nat_inj64:
  fixes i j :: nat
  assumes "i < 2 ^ 64" "j < 2 ^ 64" "(of_nat i :: 64 word) = of_nat j"
  shows "i = j"
proof -
  have "unat (of_nat i :: 64 word) = unat (of_nat j :: 64 word)" using assms(3) by simp
  then have "i mod 2 ^ 64 = j mod 2 ^ 64" by (simp add: unat_of_nat)
  then show ?thesis using assms(1,2) by simp
qed

lemma index_voters_Nil: "index_voters [] ws i m = Inr m" by simp

lemma add_all_store56:
  "add_all newSigningPolicyStorage [test_policy 5 10 [] [], test_policy 6 12 [] []] = Some store56"
  by (simp add: Add_def newSigningPolicyStorage_def store56_def test_policy_def max_slice_len_def)

lemma add_all_dup_store:
  "add_all newSigningPolicyStorage [test_policy 1 5 [] [], test_policy 2 5 [] []] = Some dup_store"
  by (simp add: Add_def newSigningPolicyStorage_def dup_store_def test_policy_def max_slice_len_def)

lemma index_voters_spec:
  "index_voters vs ws i m = Inr m' \<Longrightarrow>
   m' a = (case m a of Some d \<Rightarrow> Some d
           | None \<Rightarrow> if a \<in> set vs
                     then Some \<lparr>index = i + first_index vs a, weight = ws ! (i + first_index vs a)\<rparr>
                     else None)"
proof (induction vs arbitrary: i m)
  case Nil
  then show ?case by (auto split: option.splits)
next
  case (Cons v vs)
  show ?case
  proof (cases "m v = None")
    case True
    then have iw: "i < length ws" and
      rec: "index_voters vs ws (Suc i) (m(v \<mapsto> \<lparr>index = i, weight = ws ! i\<rparr>)) = Inr m'"
      using Cons.prems by (auto split: if_splits)
    show ?thesis using Cons.IH[OF rec] True
      by (auto simp: first_index_def split: option.splits)
  next
    case False
    then have rec: "index_voters vs ws (Suc i) m = Inr m'" using Cons.prems by auto
    show ?thesis using Cons.IH[OF rec] False
      by (auto simp: first_index_def split: option.splits)
  qed
qed

lemma index_voters_first_wins:
  "index_voters vs ws 0 Map.empty = Inr m' \<Longrightarrow> m' = first_wins vs ws"
  by (rule ext) (simp add: index_voters_spec[of vs ws 0 Map.empty m'] first_wins_def)

lemma Add_accepted_voterMap:
  assumes "Add s sp = Inr (s', None)"
  shows "voterMap s' = (voterMap s)(rewardEpochId sp \<mapsto> first_wins (voters sp) (weights sp))"
  using assms by (auto simp: Add_def split: if_splits sum.splits dest: index_voters_first_wins)

lemma Add_rejected_same: "Add s sp = Inr (s', Some e) \<Longrightarrow> s' = s"
  by (auto simp: Add_def split: if_splits sum.splits)

lemma epoch_chain_tl: "epoch_chain (p # ps) \<Longrightarrow> epoch_chain ps"
  by (cases ps) auto

lemma epoch_chain_distinct:
  assumes ch: "epoch_chain xs" and len: "length xs \<le> max_slice_len"
  shows "distinct (map rewardEpochId xs)"
proof -
  have "rewardEpochId (xs ! i) \<noteq> rewardEpochId (xs ! j)"
    if "i < length xs" "j < length xs" "i \<noteq> j" for i j
  proof
    assume eq: "rewardEpochId (xs ! i) = rewardEpochId (xs ! j)"
    have "rewardEpochId (xs ! 0) + of_nat i = rewardEpochId (xs ! 0) + of_nat j"
      using eq epoch_chain_offset[OF ch that(1)] epoch_chain_offset[OF ch that(2)] by simp
    then have "(of_nat i :: 64 word) = of_nat j" by simp
    moreover have "i < 2 ^ 64" "j < 2 ^ 64" using that(1,2) len by (simp_all add: max_slice_len_def)
    ultimately show False using of_nat_inj64 that(3) by blast
  qed
  then show ?thesis by (simp add: distinct_conv_nth)
qed

lemma Add_store_inv:
  assumes "Add s sp = Inr (s', err)" "store_inv s"
  shows "store_inv s'"
proof (cases err)
  case None
  note A = Add_accepted_spList[OF assms(1)[unfolded None]]
  have "epoch_chain (spList s')" using Add_preserves_chain[OF assms(1)[unfolded None]] assms(2)
    by (simp add: store_inv_def)
  moreover have "length (spList s') \<le> max_slice_len" using A(1,3) by simp
  moreover have "dom (voterMap s') = rewardEpochId ` set (spList s')"
    using Add_accepted_voterMap[OF assms(1)[unfolded None]] A(1) assms(2)
    by (simp add: store_inv_def)
  ultimately show ?thesis by (simp add: store_inv_def)
next
  case (Some e)
  then show ?thesis using Add_rejected_same assms by blast
qed

lemma remove_loop_inv:
  "epoch_chain xs \<Longrightarrow> length xs \<le> max_slice_len \<Longrightarrow> dom vm = rewardEpochId ` set xs \<Longrightarrow>
   remove_loop xs vm v acc = (l, vm', r) \<Longrightarrow>
   epoch_chain l \<and> length l \<le> length xs \<and> dom vm' = rewardEpochId ` set l \<and>
   (\<exists>pre. xs = pre @ l)"
proof (induction xs arbitrary: vm acc)
  case Nil
  then show ?case by simp
next
  case (Cons p ps)
  show ?case
  proof (cases "startVotingRoundId p \<le> v")
    case True
    have d: "rewardEpochId p \<notin> rewardEpochId ` set ps"
      using epoch_chain_distinct[OF Cons.prems(1,2)] by simp
    have dom': "dom (vm(rewardEpochId p := None)) = rewardEpochId ` set ps"
      using Cons.prems(3) d by auto
    have rec: "remove_loop ps (vm(rewardEpochId p := None)) v (acc @ [ucast (rewardEpochId p)]) = (l, vm', r)"
      using Cons.prems(4) True by simp
    have "epoch_chain l \<and> length l \<le> length ps \<and> dom vm' = rewardEpochId ` set l \<and>
       (\<exists>pre. ps = pre @ l)"
      by (rule Cons.IH[OF epoch_chain_tl[OF Cons.prems(1)] _ dom' rec]) (use Cons.prems(2) in simp)
    then show ?thesis by (auto intro: exI[of _ "p # _"])
  next
    case False
    then show ?thesis using Cons.prems by auto
  qed
qed

lemma RemoveByVotingRound_store_inv:
  assumes "store_inv s"
  shows "store_inv (fst (RemoveByVotingRound s v))"
proof -
  obtain l vm r where R: "remove_loop (spList s) (voterMap s) v [] = (l, vm, r)"
    by (cases "remove_loop (spList s) (voterMap s) v []") auto
  have "epoch_chain l \<and> length l \<le> length (spList s) \<and> dom vm = rewardEpochId ` set l \<and>
     (\<exists>pre. spList s = pre @ l)"
    by (rule remove_loop_inv[OF _ _ _ R]) (use assms in \<open>simp_all add: store_inv_def\<close>)
  then show ?thesis using assms R by (simp add: RemoveByVotingRound_def store_inv_def)
qed

lemma run_ops_store_inv:
  "run_ops s ops = Inr s' \<Longrightarrow> store_inv s \<Longrightarrow> store_inv s'"
proof (induction s ops rule: run_ops.induct)
  case (1 s)
  then show ?case by simp
next
  case (2 s sp ops)
  then show ?case by (auto split: sum.splits dest: Add_store_inv)
next
  case (3 s v ops)
  then show ?case by (auto dest: RemoveByVotingRound_store_inv)
qed

lemma store_inv_new: "store_inv newSigningPolicyStorage"
  by (simp add: store_inv_def newSigningPolicyStorage_def)

lemma RemoveByVotingRound_suffix:
  "\<exists>pre. spList s = pre @ spList (fst (RemoveByVotingRound s v))"
proof -
  have "\<exists>pre. xs = pre @ fst (remove_loop xs vm v acc)" for xs vm acc
  proof (induction xs arbitrary: vm acc)
    case (Cons p ps)
    show ?case
    proof (cases "startVotingRoundId p \<le> v")
      case True
      obtain pre where "ps = pre @ fst (remove_loop ps (vm(rewardEpochId p := None)) v (acc @ [ucast (rewardEpochId p)]))"
        using Cons by blast
      then have "p # ps = (p # pre) @ fst (remove_loop (p # ps) vm v acc)" using True by simp
      then show ?thesis by blast
    qed simp
  qed simp
  then show ?thesis by (simp add: RemoveByVotingRound_def split: prod.splits) (metis fst_conv)
qed

lemma run_ops_voters_store:
  "run_ops newSigningPolicyStorage [OpAdd voters_policy5, OpAdd voters_policy6] = Inr voters_store"
  by (simp add: Add_def newSigningPolicyStorage_def voters_store_def voters_policy5_def
      voters_policy6_def test_policy_def max_slice_len_def)

lemma Add_voters_store7: "Add voters_store voters_policy7 = Inr (voters_store7, None)"
  by (simp add: Add_def voters_store_def voters_store7_def voters_policy5_def
      voters_policy6_def voters_policy7_def test_policy_def max_slice_len_def)

lemma Remove_voters_store:
  "spList (fst (RemoveByVotingRound voters_store 10)) = [voters_policy6]"
  by (simp add: RemoveByVotingRound_def voters_store_def voters_policy5_def
      voters_policy6_def test_policy_def)

subsection \<open>Claim C6: the checks of \<open>Add\<close> and the order of the stored list\<close>

text \<open>
  C6, counterexample. The claim says that after accepted \<open>Add\<close> calls the stored list is
  strictly monotonic in \<open>reward_epoch_id\<close>. \<open>Add\<close> compares
  \<open>last.rewardEpochId\<close> with \<open>sp.rewardEpochId-1\<close> on \<open>int64\<close>: after a policy with
  the largest \<open>int64\<close> it accepts the one with the smallest, and the stored ids then
  decrease.
\<close>

theorem Add_epoch_wraps_counterexample:
  "map_option (\<lambda>s. map (\<lambda>p. sint (rewardEpochId p)) (spList s))
     (add_all newSigningPolicyStorage [max_epoch_policy, min_epoch_policy]) =
   Some [9223372036854775807, - 9223372036854775808]"
  by (simp add: Add_def newSigningPolicyStorage_def max_epoch_policy_def min_epoch_policy_def
      test_policy_def max_slice_len_def)

text \<open>
  C6, as amended. On a non-empty store \<open>Add(sp)\<close> fails with "missing signing policy for
  reward epoch id N-1" (N the id of \<open>sp\<close>) when \<open>sp.rewardEpochId\<close> is not the last
  stored id plus 1 in \<open>int64\<close> arithmetic, it fails (with that error or with the one
  about the start voting round) when \<open>sp.startVotingRoundId\<close> is smaller than the last
  stored one, and a failed \<open>Add\<close> returns the store unchanged. After every sequence of
  accepted \<open>Add\<close> calls each stored policy has the id of its predecessor plus 1 in
  \<open>int64\<close> arithmetic, so the ids increase by exactly 1 as integers wherever the
  predecessor's id is not the largest \<open>int64\<close>, and the start voting rounds do not
  decrease.
\<close>

theorem Add_consistency:
  "(spList s \<noteq> [] \<and> rewardEpochId sp \<noteq> rewardEpochId (last (spList s)) + 1 \<longrightarrow>
      Add s sp = Inr (s, Some (MissingSigningPolicy (rewardEpochId sp - 1)))) \<and>
   (spList s \<noteq> [] \<and> startVotingRoundId sp < startVotingRoundId (last (spList s)) \<longrightarrow>
      Add s sp = Inr (s, Some (MissingSigningPolicy (rewardEpochId sp - 1))) \<or>
      Add s sp = Inr (s, Some (LargerStartVotingRoundId (rewardEpochId sp)))) \<and>
   (\<forall>s' e. Add s sp = Inr (s', Some e) \<longrightarrow> s' = s) \<and>
   (\<forall>t. add_all newSigningPolicyStorage sps = Some t \<longrightarrow>
      epoch_chain (spList t) \<and>
      (\<forall>i. Suc i < length (spList t) \<longrightarrow>
         startVotingRoundId (spList t ! i) \<le> startVotingRoundId (spList t ! Suc i) \<and>
         rewardEpochId (spList t ! Suc i) = rewardEpochId (spList t ! i) + 1 \<and>
         (rewardEpochId (spList t ! i) \<noteq> 0x7FFFFFFFFFFFFFFF \<longrightarrow>
            sint (rewardEpochId (spList t ! Suc i)) = sint (rewardEpochId (spList t ! i)) + 1)))"
proof (intro conjI allI impI)
  assume "spList s \<noteq> [] \<and> rewardEpochId sp \<noteq> rewardEpochId (last (spList s)) + 1"
  then have "spList s \<noteq> []" "rewardEpochId (last (spList s)) \<noteq> rewardEpochId sp - 1" by auto
  then show "Add s sp = Inr (s, Some (MissingSigningPolicy (rewardEpochId sp - 1)))"
    by (simp add: Add_def)
next
  assume "spList s \<noteq> [] \<and> startVotingRoundId sp < startVotingRoundId (last (spList s))"
  then show "Add s sp = Inr (s, Some (MissingSigningPolicy (rewardEpochId sp - 1))) \<or>
      Add s sp = Inr (s, Some (LargerStartVotingRoundId (rewardEpochId sp)))"
    by (simp add: Add_def)
next
  fix s' e assume "Add s sp = Inr (s', Some e)"
  then show "s' = s" by (auto simp: Add_def split: if_splits sum.splits)
next
  fix t assume t: "add_all newSigningPolicyStorage sps = Some t"
  show ch: "epoch_chain (spList t)"
    by (rule add_all_chain[OF t]) (simp add: newSigningPolicyStorage_def)
  fix i assume i: "Suc i < length (spList t)"
  note n = epoch_chain_nth[OF ch i]
  show "startVotingRoundId (spList t ! i) \<le> startVotingRoundId (spList t ! Suc i)"
    using n by simp
  show "rewardEpochId (spList t ! Suc i) = rewardEpochId (spList t ! i) + 1"
    using n by simp
  assume "rewardEpochId (spList t ! i) \<noteq> 0x7FFFFFFFFFFFFFFF"
  then show "sint (rewardEpochId (spList t ! Suc i)) = sint (rewardEpochId (spList t ! i)) + 1"
    using n sint_succ by simp
qed

text \<open>The theorem of C6 at concrete stores and policies.\<close>

theorem Add_consistency_witness:
  "Add store5 (test_policy 7 10 [] []) = Inr (store5, Some (MissingSigningPolicy 6)) \<and>
   Add store5 (test_policy 6 9 [] []) = Inr (store5, Some (LargerStartVotingRoundId 6)) \<and>
   add_all newSigningPolicyStorage [test_policy 5 10 [] [], test_policy 6 12 [] []] = Some store56 \<and>
   epoch_chain (spList store56) \<and>
   sint (rewardEpochId (spList store56 ! Suc 0)) = sint (rewardEpochId (spList store56 ! 0)) + 1"
proof -
  have ne: "spList store5 \<noteq> []" by (simp add: store5_def)
  have a: "rewardEpochId (test_policy 7 10 [] []) \<noteq> rewardEpochId (last (spList store5)) + 1"
    by (simp add: store5_def test_policy_def)
  have b: "startVotingRoundId (test_policy 6 9 [] []) < startVotingRoundId (last (spList store5))"
    by (simp add: store5_def test_policy_def)
  have b': "Add store5 (test_policy 6 9 [] []) \<noteq>
      Inr (store5, Some (MissingSigningPolicy (rewardEpochId (test_policy 6 9 [] []) - 1)))"
    by (simp add: Add_def store5_def test_policy_def)
  have i: "Suc 0 < length (spList store56)" by (simp add: store56_def)
  have m: "rewardEpochId (spList store56 ! 0) \<noteq> 0x7FFFFFFFFFFFFFFF"
    by (simp add: store56_def test_policy_def)
  note T1 = Add_consistency[of store5 "test_policy 7 10 [] []" "[]"]
  note T2 = Add_consistency[of store5 "test_policy 6 9 [] []" "[]"]
  note T3 = Add_consistency[of store5 "test_policy 6 9 [] []"
                "[test_policy 5 10 [] [], test_policy 6 12 [] []]"]
  have 1: "Add store5 (test_policy 7 10 [] []) = Inr (store5, Some (MissingSigningPolicy 6))"
    using T1 ne a by (simp add: test_policy_def)
  have 2: "Add store5 (test_policy 6 9 [] []) = Inr (store5, Some (LargerStartVotingRoundId 6))"
    using T2 ne b b' by (simp add: test_policy_def)
  have 3: "epoch_chain (spList store56)" using T3 add_all_store56 by blast
  have 4: "sint (rewardEpochId (spList store56 ! Suc 0)) = sint (rewardEpochId (spList store56 ! 0)) + 1"
    using T3 add_all_store56 i m by blast
  show ?thesis using 1 2 3 4 add_all_store56 by simp
qed

subsection \<open>Claim C5: \<open>GetForVotingRound\<close>\<close>

text \<open>
  C5, counterexample. The claim says the result is the unique stored policy with the
  largest start voting round at or before \<open>v\<close>. \<open>Add\<close> rejects only a smaller start
  voting round, so two stored policies can start at the same round: here both start at
  round 5, the lookup for round 5 returns the first, the lookup for round 6 the second,
  and in both lookups the other policy has the same, largest, start.
\<close>

theorem GetForVotingRound_not_unique_counterexample:
  "add_all newSigningPolicyStorage [test_policy 1 5 [] [], test_policy 2 5 [] []] = Some dup_store \<and>
   GetForVotingRound dup_store 5 = Some (test_policy 1 5 [] []) \<and>
   GetForVotingRound dup_store 6 = Some (test_policy 2 5 [] []) \<and>
   test_policy 2 5 [] [] \<in> set (spList dup_store) \<and>
   startVotingRoundId (test_policy 2 5 [] []) = startVotingRoundId (test_policy 1 5 [] []) \<and>
   test_policy 2 5 [] [] \<noteq> test_policy 1 5 [] []"
proof -
  have a: "GetForVotingRound dup_store 5 = Some (test_policy 1 5 [] [])"
    by (simp add: GetForVotingRound_def findByVotingRoundId_def sort_Find_def find_loop.simps
        cmp_Compare_def dup_store_def test_policy_def Let_def)
  have b: "GetForVotingRound dup_store 6 = Some (test_policy 2 5 [] [])"
    by (simp add: GetForVotingRound_def findByVotingRoundId_def sort_Find_def find_loop.simps
        cmp_Compare_def dup_store_def test_policy_def Let_def)
  show ?thesis using a b add_all_dup_store by (simp add: dup_store_def test_policy_def)
qed

text \<open>
  C5, as amended. In every store reached by accepted \<open>Add\<close> calls,
  \<open>GetForVotingRound(v)\<close> returns nothing exactly when every stored policy starts after
  \<open>v\<close>, and otherwise returns a stored policy whose start voting round is at most \<open>v\<close>
  and is the largest such start among the stored policies (other stored policies may
  have the same start).
\<close>

theorem GetForVotingRound_greatest:
  assumes "add_all newSigningPolicyStorage sps = Some s"
  shows "(GetForVotingRound s v = None \<longleftrightarrow> (\<forall>p\<in>set (spList s). v < startVotingRoundId p)) \<and>
         (\<forall>p. GetForVotingRound s v = Some p \<longrightarrow>
            p \<in> set (spList s) \<and> startVotingRoundId p \<le> v \<and>
            (\<forall>q\<in>set (spList s). startVotingRoundId q \<le> v \<longrightarrow>
               startVotingRoundId q \<le> startVotingRoundId p))"
proof -
  have "epoch_chain (spList s)"
    by (rule add_all_chain[OF assms]) (simp add: newSigningPolicyStorage_def)
  then have srt: "sorted (map startVotingRoundId (spList s))" by (rule epoch_chain_sorted)
  note F = findByVotingRoundId_sorted[OF srt, of v]
  show ?thesis
  proof (cases "findByVotingRoundId s v")
    case None
    then show ?thesis using F by (simp add: GetForVotingRound_def)
  next
    case (Some p)
    then have P: "p \<in> set (spList s)" "startVotingRoundId p \<le> v"
      "\<forall>q\<in>set (spList s). startVotingRoundId q \<le> v \<longrightarrow>
               startVotingRoundId q \<le> startVotingRoundId p" using F by simp_all
    have "\<not> (\<forall>p\<in>set (spList s). v < startVotingRoundId p)"
      using P(1,2) by (auto simp: not_less)
    then show ?thesis using Some P by (simp add: GetForVotingRound_def)
  qed
qed

text \<open>The theorem of C5 at a concrete store, for a round with and one without a policy.\<close>

theorem GetForVotingRound_greatest_witness:
  "GetForVotingRound store56 11 = Some (test_policy 5 10 [] []) \<and>
   test_policy 5 10 [] [] \<in> set (spList store56) \<and>
   startVotingRoundId (test_policy 5 10 [] []) \<le> 11 \<and>
   GetForVotingRound store56 9 = None \<and>
   list_all (\<lambda>p. 9 < startVotingRoundId p) (spList store56)"
proof -
  have a: "GetForVotingRound store56 11 = Some (test_policy 5 10 [] [])"
    by (simp add: GetForVotingRound_def findByVotingRoundId_def sort_Find_def find_loop.simps
        cmp_Compare_def store56_def test_policy_def Let_def)
  have b: "GetForVotingRound store56 9 = None"
    by (simp add: GetForVotingRound_def findByVotingRoundId_def sort_Find_def find_loop.simps
        cmp_Compare_def store56_def test_policy_def Let_def)
  show ?thesis
    using GetForVotingRound_greatest[OF add_all_store56, of 11]
      GetForVotingRound_greatest[OF add_all_store56, of 9] a b
    by (simp add: list_all_iff)
qed

subsection \<open>Claim C10: the keys of the voter map\<close>

text \<open>
  C10. In every store reached from the empty one by \<open>Add\<close> and \<open>RemoveByVotingRound\<close>
  calls, the keys of the voter map are the reward epoch ids of the stored policies; an
  accepted \<open>Add\<close> installs for the new policy's epoch the map in which each voter has
  the index and weight of its first occurrence; and \<open>RemoveByVotingRound\<close> leaves no
  voter-map entry for a policy it removed.
\<close>

theorem voterMap_keys_are_stored_epochs:
  assumes "run_ops newSigningPolicyStorage ops = Inr s"
  shows "dom (voterMap s) = rewardEpochId ` set (spList s) \<and>
         (\<forall>sp s'. Add s sp = Inr (s', None) \<longrightarrow>
            voterMap s' (rewardEpochId sp) = Some (first_wins (voters sp) (weights sp))) \<and>
         (\<forall>v p. p \<in> set (spList s) \<and> p \<notin> set (spList (fst (RemoveByVotingRound s v))) \<longrightarrow>
            voterMap (fst (RemoveByVotingRound s v)) (rewardEpochId p) = None)"
proof (intro conjI allI impI)
  have inv: "store_inv s" using run_ops_store_inv[OF assms store_inv_new] .
  show "dom (voterMap s) = rewardEpochId ` set (spList s)" using inv by (simp add: store_inv_def)
  {
    fix sp s' assume "Add s sp = Inr (s', None)"
    then show "voterMap s' (rewardEpochId sp) = Some (first_wins (voters sp) (weights sp))"
      by (simp add: Add_accepted_voterMap)
  }
  {
    fix v p
    let ?s' = "fst (RemoveByVotingRound s v)"
    assume p: "p \<in> set (spList s) \<and> p \<notin> set (spList ?s')"
    have inv': "store_inv ?s'" by (rule RemoveByVotingRound_store_inv[OF inv])
    obtain pre where pre: "spList s = pre @ spList ?s'" using RemoveByVotingRound_suffix by blast
    have dist: "distinct (map rewardEpochId (spList s))"
      using inv by (simp add: store_inv_def epoch_chain_distinct)
    show "voterMap ?s' (rewardEpochId p) = None"
    proof (rule ccontr)
      assume "voterMap ?s' (rewardEpochId p) \<noteq> None"
      then have "rewardEpochId p \<in> dom (voterMap ?s')" by (simp add: domIff)
      then have "rewardEpochId p \<in> rewardEpochId ` set (spList ?s')"
        using inv' by (simp add: store_inv_def)
      then obtain q where q: "q \<in> set (spList ?s')" "rewardEpochId q = rewardEpochId p" by auto
      have "q \<in> set (spList s)" using q(1) pre by (metis Un_iff set_append)
      then have "q = p" using dist p q(2) by (meson distinct_map inj_onD)
      then show False using p q(1) by simp
    qed
  }
qed

text \<open>The theorem of C10 at a concrete sequence of calls.\<close>

theorem voterMap_keys_are_stored_epochs_witness:
  "run_ops newSigningPolicyStorage [OpAdd voters_policy5, OpAdd voters_policy6] = Inr voters_store \<and>
   dom (voterMap voters_store) = rewardEpochId ` set (spList voters_store) \<and>
   Add voters_store voters_policy7 = Inr (voters_store7, None) \<and>
   voterMap voters_store7 (rewardEpochId voters_policy7) =
     Some (first_wins (voters voters_policy7) (weights voters_policy7)) \<and>
   voters_policy5 \<in> set (spList voters_store) \<and>
   voters_policy5 \<notin> set (spList (fst (RemoveByVotingRound voters_store 10))) \<and>
   voterMap (fst (RemoveByVotingRound voters_store 10)) (rewardEpochId voters_policy5) = None"
proof -
  note T = voterMap_keys_are_stored_epochs[OF run_ops_voters_store]
  have a: "voters_policy5 \<in> set (spList voters_store)" by (simp add: voters_store_def)
  have b: "voters_policy5 \<notin> set (spList (fst (RemoveByVotingRound voters_store 10)))"
    by (simp add: Remove_voters_store voters_policy5_def voters_policy6_def test_policy_def)
  have 1: "dom (voterMap voters_store) = rewardEpochId ` set (spList voters_store)"
    using T by blast
  have 2: "voterMap voters_store7 (rewardEpochId voters_policy7) =
     Some (first_wins (voters voters_policy7) (weights voters_policy7))"
    using T Add_voters_store7 by blast
  have 3: "voterMap (fst (RemoveByVotingRound voters_store 10)) (rewardEpochId voters_policy5) = None"
    using T a b by blast
  show ?thesis using run_ops_voters_store Add_voters_store7 a b 1 2 3 by blast
qed


subsection \<open>The retry harness: auxiliary facts\<close>

lemma find_upt_ge: "List.find P [a..<b] = Some k \<Longrightarrow> a \<le> k \<and> k < b"
  by (auto simp: find_Some_iff)

lemma retry_loop_trace: "retry_loop f n ri = retry_trace f ri (nat n)"
proof (induction f n ri rule: retry_loop.induct)
  case (1 f n ri)
  show ?case
  proof (cases "int ri < n")
    case False
    then have "[ri..<nat n] = []" by simp
    then show ?thesis using False
      by (subst retry_loop.simps) (simp add: retry_trace_def)
  next
    case True
    then have upt: "[ri..<nat n] = ri # [Suc ri..<nat n]" by (simp add: upt_conv_Cons)
    show ?thesis
    proof (cases "f ri")
      case None
      then show ?thesis using True upt
        by (subst retry_loop.simps) (simp add: retry_trace_def)
    next
      case (Some err)
      have IH: "retry_loop f n (ri + 1) = retry_trace f (ri + 1) (nat n)"
        using "1.IH"[OF True Some] .
      have unf: "retry_loop f n ri =
          Call ri # LogError ri err # Sleep TxRetryInterval # retry_loop f n (ri + 1)"
        using True Some by (subst retry_loop.simps) simp
      show ?thesis
      proof (cases "List.find (\<lambda>k. f k = None) [Suc ri..<nat n]")
        case None
        then show ?thesis using unf IH Some upt
          by (simp add: retry_trace_def failed_attempt_def)
      next
        case (Some k)
        then have "Suc ri \<le> k" using find_upt_ge by blast
        then have "[ri..<k] = ri # [Suc ri..<k]" by (simp add: upt_conv_Cons)
        then show ?thesis using unf IH Some \<open>f ri = Some err\<close> upt
          by (simp add: retry_trace_def failed_attempt_def)
      qed
    qed
  qed
qed

lemma failed_attempts_no_Send: "filter is_Send (concat (map (failed_attempt f) xs)) = []"
  by (induction xs) (auto simp: failed_attempt_def split: option.splits)

lemma failed_attempts_Calls:
  "length (filter is_Call (concat (map (failed_attempt f) xs))) \<le> length xs"
  by (induction xs) (auto simp: failed_attempt_def split: option.splits)

lemma failed_attempts_Send_notin:
  "Send st \<notin> set (concat (map (failed_attempt f) xs))"
  by (induction xs) (auto simp: failed_attempt_def split: option.splits)

lemma retry_trace_success_iff:
  "Send \<lparr>Success = True, Message = []\<rparr> \<in> set (retry_trace f a b) \<longleftrightarrow>
   (\<exists>k. a \<le> k \<and> k < b \<and> f k = None)"
proof (cases "List.find (\<lambda>k. f k = None) [a..<b]")
  case None
  then have "\<not> (\<exists>k. a \<le> k \<and> k < b \<and> f k = None)" by (auto simp: find_None_iff)
  moreover have "Send \<lparr>Success = True, Message = []\<rparr> \<notin> set (retry_trace f a b)"
    using None failed_attempts_Send_notin[of _ f "[a..<b]"]
    by (simp add: retry_trace_def del: set_concat)
  ultimately show ?thesis by blast
next
  case (Some k)
  then have "a \<le> k \<and> k < b \<and> f k = None" by (auto simp: find_Some_iff)
  then show ?thesis using Some by (auto simp: retry_trace_def)
qed

subsection \<open>Claim C3: attempts, waits and the one status\<close>

text \<open>
  C3, counterexample. The claim says the harness attempts \<open>f\<close> at least once even when
  \<open>max_retries = 0\<close>. The loop is \<open>for ri := 0; ri < maxRetries; ri++\<close>: with
  \<open>maxRetries = 0\<close> it never calls \<open>f\<close>, and an operation that would succeed at once
  ends in the failure status.
\<close>

theorem ExecuteWithRetry_zero_counterexample:
  "ExecuteWithRetry (\<lambda>k. None) 0 = [Send \<lparr>Success = False, Message = ''max retries reached''\<rparr>]"
  by (simp add: ExecuteWithRetry_def retry_loop.simps)

text \<open>
  C3, as amended. For every operation \<open>f\<close> and every bound \<open>maxRetries\<close> the goroutine of
  \<open>ExecuteWithRetry\<close> calls \<open>f\<close> until a call succeeds, at most \<open>maxRetries\<close> times
  (never for \<open>maxRetries \<le> 0\<close>), sleeps \<open>TxRetryInterval\<close> after every failed call, and
  sends exactly one status: success right after the first successful call, failure
  after the last failed one. So the status is success exactly when one of the first
  \<open>maxRetries\<close> calls succeeds.
\<close>

theorem ExecuteWithRetry_attempts:
  "ExecuteWithRetry f maxRetries = retry_trace f 0 (nat maxRetries) \<and>
   length (filter is_Send (ExecuteWithRetry f maxRetries)) = 1 \<and>
   length (filter is_Call (ExecuteWithRetry f maxRetries)) \<le> nat maxRetries \<and>
   (Send \<lparr>Success = True, Message = []\<rparr> \<in> set (ExecuteWithRetry f maxRetries) \<longleftrightarrow>
      (\<exists>k. k < nat maxRetries \<and> f k = None))"
proof -
  have t: "ExecuteWithRetry f maxRetries = retry_trace f 0 (nat maxRetries)"
    by (simp add: ExecuteWithRetry_def retry_loop_trace)
  have s: "length (filter is_Send (retry_trace f 0 (nat maxRetries))) = 1"
    by (simp add: retry_trace_def failed_attempts_no_Send split: option.splits)
  have c: "length (filter is_Call (retry_trace f 0 (nat maxRetries))) \<le> nat maxRetries"
  proof (cases "List.find (\<lambda>k. f k = None) [0..<nat maxRetries]")
    case None
    then show ?thesis using failed_attempts_Calls[of f "[0..<nat maxRetries]"]
      by (simp add: retry_trace_def)
  next
    case (Some k)
    then have "k < nat maxRetries" using find_upt_ge by blast
    then show ?thesis using Some failed_attempts_Calls[of f "[0..<k]"]
      by (simp add: retry_trace_def)
  qed
  have d: "Send \<lparr>Success = True, Message = []\<rparr> \<in> set (retry_trace f 0 (nat maxRetries)) \<longleftrightarrow>
      (\<exists>k. k < nat maxRetries \<and> f k = None)"
    using retry_trace_success_iff[of f 0 "nat maxRetries"] by simp
  show ?thesis using t s c d by simp
qed

subsection \<open>The run loop: auxiliary facts\<close>

lemma sle_MaxInt64: "MaxInt64 \<le>s t \<longleftrightarrow> t = MaxInt64"
proof
  assume "MaxInt64 \<le>s t"
  then have "2 ^ 63 - 1 \<le> sint t" by (simp add: word_sle_eq MaxInt64_def)
  moreover have "sint t < 2 ^ 63" using sint_lt[of t] by simp
  ultimately have "sint t = sint MaxInt64" by (simp add: MaxInt64_def)
  then show "t = MaxInt64" by (rule signed_word_eqI)
qed simp

lemma run_loop_ticks:
  "\<not> s \<le>s e \<Longrightarrow> \<forall>t\<in>set ts. \<not> s \<le>s t \<Longrightarrow>
   run_loop e s (map Tick ts @ cs) =
     (map RunEpoch ts @ fst (run_loop (last (e # ts)) s cs), snd (run_loop (last (e # ts)) s cs))"
proof (induction ts arbitrary: e)
  case Nil
  then show ?case by simp
next
  case (Cons t ts)
  have "run_loop t s (map Tick ts @ cs) =
     (map RunEpoch ts @ fst (run_loop (last (t # ts)) s cs), snd (run_loop (last (t # ts)) s cs))"
    by (rule Cons.IH) (use Cons.prems in simp_all)
  then show ?case using Cons.prems(1) by simp
qed

lemma run_loop_after_stop:
  "run_loop e n (map Tick ts) =
     (if n \<le>s e then ([LastEpoch e], True)
      else (map RunEpoch (take_through (\<lambda>t. n \<le>s t) ts) @
              (if \<exists>t\<in>set ts. n \<le>s t then [LastEpoch (last (take_through (\<lambda>t. n \<le>s t) ts))] else []),
            \<exists>t\<in>set ts. n \<le>s t))"
proof (induction ts arbitrary: e)
  case Nil
  then show ?case by (simp add: take_through_def)
next
  case (Cons t ts)
  show ?case
  proof (cases "n \<le>s e")
    case True
    then show ?thesis by simp
  next
    case False
    show ?thesis
    proof (cases "n \<le>s t")
      case True
      then show ?thesis using False Cons.IH[of t] by (simp add: take_through_def)
    next
      case nt: False
      have ne: "take_through (\<lambda>t. n \<le>s t) ts \<noteq> []" if "\<exists>t\<in>set ts. n \<le>s t"
        using that by (cases ts) (auto simp: take_through_def)
      show ?thesis using False nt Cons.IH[of t] ne by (auto simp: take_through_def)
    qed
  qed
qed

subsection \<open>Claim C8: the stop protocol\<close>

text \<open>
  C8, counterexample. The claim says that after a stop signal the loop exits and
  publishes exactly one value on \<open>last_epoch\<close>. The \<open>select\<close> case of \<open>stopAt\<close> itself
  sends \<open>epoch\<close> on \<open>lastEpoch\<close>, and the exit at the top of the loop sends it again:
  after the tick 5 and the stop index 5, two values are published. With the stop index
  7 the loop goes on to run the epochs 6 and 7 before it exits. With no tick at all it
  publishes 0, an epoch it never ran.
\<close>

theorem Run_publishes_twice_counterexample:
  "Run [Tick 5, StopAt 5] = ([RunEpoch 5, LastEpoch 5, LastEpoch 5], True) \<and>
   Run [Tick 5, StopAt 7, Tick 6, Tick 7] =
     ([RunEpoch 5, LastEpoch 5, RunEpoch 6, RunEpoch 7, LastEpoch 7], True) \<and>
   Run [StopAt 0] = ([LastEpoch 0, LastEpoch 0], True)"
  by (simp add: Run_def MaxInt64_def word_sle_eq)

text \<open>
  C8, as amended. When \<open>stopAt\<close> delivers \<open>n\<close> after the ticks \<open>ts1\<close> (none of them
  \<open>MaxInt64\<close>), the loop at once publishes its current epoch (the last tick, 0 without
  one) on \<open>lastEpoch\<close>. If that epoch is already at or past \<open>n\<close> it exits and publishes
  the same epoch once more. Otherwise it keeps running the ticked epochs up to and
  including the first one at or past \<open>n\<close>, then exits, publishing that last epoch it
  ran; while no such tick arrives it does not exit.
\<close>

theorem Run_stop_protocol:
  assumes "MaxInt64 \<notin> set ts1"
  shows "Run (map Tick ts1 @ StopAt n # map Tick ts2) =
     (map RunEpoch ts1 @ [LastEpoch (last (0 # ts1))] @
        (if n \<le>s last (0 # ts1) then [LastEpoch (last (0 # ts1))]
         else map RunEpoch (take_through (\<lambda>t. n \<le>s t) ts2) @
              (if \<exists>t\<in>set ts2. n \<le>s t
               then [LastEpoch (last (take_through (\<lambda>t. n \<le>s t) ts2))] else [])),
      n \<le>s last (0 # ts1) \<or> (\<exists>t\<in>set ts2. n \<le>s t))"
proof -
  let ?cur = "last (0 # ts1)"
  have z: "\<not> MaxInt64 \<le>s (0 :: 64 word)" by (simp add: word_sle_eq MaxInt64_def)
  have ts: "\<forall>t\<in>set ts1. \<not> MaxInt64 \<le>s t" using assms by (auto simp: sle_MaxInt64)
  have cur: "\<not> MaxInt64 \<le>s ?cur"
  proof (cases ts1)
    case Nil
    then show ?thesis using z by simp
  next
    case (Cons a list)
    then have "?cur \<in> set ts1" by (metis last.simps last_in_set list.distinct(1))
    then show ?thesis using ts by blast
  qed
  have 1: "Run (map Tick ts1 @ StopAt n # map Tick ts2) =
      (map RunEpoch ts1 @ fst (run_loop ?cur MaxInt64 (StopAt n # map Tick ts2)),
       snd (run_loop ?cur MaxInt64 (StopAt n # map Tick ts2)))"
    unfolding Run_def by (rule run_loop_ticks[OF z ts])
  have 2: "run_loop ?cur MaxInt64 (StopAt n # map Tick ts2) =
      (LastEpoch ?cur # fst (run_loop ?cur n (map Tick ts2)), snd (run_loop ?cur n (map Tick ts2)))"
    using cur by (simp add: case_prod_beta del: last.simps)
  show ?thesis unfolding 1 2 run_loop_after_stop by (simp del: last.simps)
qed

text \<open>The theorem of C8 at the ticks 4, 5, the stop index 7 and the ticks 6, 7, 8.\<close>

theorem Run_stop_protocol_witness:
  "MaxInt64 \<notin> set [4, 5] \<and>
   Run (map Tick [4, 5] @ StopAt 7 # map Tick [6, 7, 8]) =
     ([RunEpoch 4, RunEpoch 5, LastEpoch 5, RunEpoch 6, RunEpoch 7, LastEpoch 7], True)"
proof -
  have h: "MaxInt64 \<notin> set [4, 5]" by (simp add: MaxInt64_def)
  show ?thesis using Run_stop_protocol[OF h, of 7 "[6, 7, 8]"] h
    by (simp add: take_through_def word_sle_eq)
qed

subsection \<open>The protocol client: auxiliary facts\<close>

lemma NewProtocolClient_test:
  "NewProtocolClient test_config None test_selectors = Inr (Some test_client)"
  by (simp add: NewProtocolClient_def test_config_def test_selectors_def test_client_def
      newSubmitter_def newSignatureSubmitter_def)

subsection \<open>Claim C2: the submitters that are built and started\<close>

text \<open>
  C2, counterexample. The claim says three plain submitters are built and started.
  \<open>NewProtocolClient\<close> builds and \<open>ProtocolClient.Run\<close> starts two, \<open>submit1\<close> and
  \<open>submit2\<close>, and the signature submitter; nothing is built for the selector of
  \<open>submit3\<close>.
\<close>

theorem NewProtocolClient_no_submit3_counterexample:
  "map_sum id (map_option (\<lambda>c. map (\<lambda>g. (goroutine_name g, goroutine_offset g)) (ProtocolClient_Run c)))
     (NewProtocolClient test_config None test_selectors) =
   Inr (Some [(''submit1'', Some 0), (''submit2'', Some (- 1)), (''submitSignatures'', None)])"
  by (simp add: NewProtocolClient_def test_config_def test_selectors_def ProtocolClient_Run_def
      newSubmitter_def newSignatureSubmitter_def)

text \<open>
  C2, as amended. Whenever \<open>NewProtocolClient\<close> returns a client, \<open>ProtocolClient.Run\<close>
  starts exactly three goroutines: the plain submitters \<open>submit1\<close> with epoch offset 0
  and \<open>submit2\<close> with epoch offset -1, and the signature submitter, each with the
  selector of its contract method.
\<close>

theorem NewProtocolClient_submitters:
  assumes "NewProtocolClient cfg chainError selectors = Inr (Some c)"
  shows "map (\<lambda>g. (goroutine_name g, goroutine_offset g)) (ProtocolClient_Run c) =
           [(''submit1'', Some 0), (''submit2'', Some (- 1)), (''submitSignatures'', None)] \<and>
         selector (submitter1 c) = submit1 selectors \<and>
         selector (submitter2 c) = submit2 selectors \<and>
         selector (signatureSubmitter c) = submitSignatures selectors"
  using assms
  by (auto simp: NewProtocolClient_def ProtocolClient_Run_def newSubmitter_def
      newSignatureSubmitter_def split: if_splits option.splits)

text \<open>The theorem of C2 at a concrete configuration.\<close>

theorem NewProtocolClient_submitters_witness:
  "NewProtocolClient test_config None test_selectors = Inr (Some test_client) \<and>
   map (\<lambda>g. (goroutine_name g, goroutine_offset g)) (ProtocolClient_Run test_client) =
     [(''submit1'', Some 0), (''submit2'', Some (- 1)), (''submitSignatures'', None)]"
  using NewProtocolClient_submitters[OF NewProtocolClient_test] NewProtocolClient_test by simp

subsection \<open>The signature submitter: auxiliary facts\<close>

lemma collect_round_subset:
  "collect_round w r e is buffer P = Inr (buffer', P') \<Longrightarrow> P' \<subseteq> P"
proof (induction "is" arbitrary: buffer P)
  case Nil
  then show ?case by simp
next
  case (Cons i rest)
  show ?case
  proof (cases "i \<in> P \<and> Success (getDataWithRetry w r i (e - 1))")
    case False
    then have "collect_round w r e rest buffer P = Inr (buffer', P')"
      using Cons.prems by (auto simp: Let_def split: if_splits)
    then show ?thesis by (rule Cons.IH)
  next
    case True
    show ?thesis
    proof (cases "WritePayload w buffer (e - 1) (Value (getDataWithRetry w r i (e - 1)))")
      case (Inl p)
      then show ?thesis using Cons.prems True by (simp add: Let_def)
    next
      case (Inr x)
      show ?thesis
      proof (cases x)
        case (Inl err)
        then have "collect_round w r e rest buffer P = Inr (buffer', P')"
          using Cons.prems True Inr by (simp add: Let_def)
        then show ?thesis by (rule Cons.IH)
      next
        case (Inr b)
        then have "collect_round w r e rest b (P - {i}) = Inr (buffer', P')"
          using Cons.prems True \<open>WritePayload w buffer (e - 1) (Value (getDataWithRetry w r i (e - 1))) = Inr x\<close>
          by (simp add: Let_def)
        then have "P' \<subseteq> P - {i}" by (rule Cons.IH)
        then show ?thesis by blast
      qed
    qed
  qed
qed

lemma card_less_iff_neq:
  assumes "finite P" "P' \<subseteq> P"
  shows "card P' < card P \<longleftrightarrow> P' \<noteq> P"
  using assms by (metis card_subset_eq less_le card_mono)

lemma one_world_simps:
  "getDataWithRetry one_world r i e = ok_response"
  "submit one_world r payload = True"
  "Success ok_response = True"
  by (simp_all add: one_world_def ok_response_def)

lemma WritePayload_one:
  "WritePayload one_world buffer e (Value ok_response) =
     Inr (Inr (buffer @ entry_with_epoch (Uint32toBytes (ucast (e - 1)))))"
  by (simp add: WritePayload_def one_world_def ok_response_def entry_with_epoch_def
      Uint16toBytes_def Let_def)

lemma WritePayload_epoch_field:
  assumes "WritePayload w buffer e data = Inr (Inr buffer')"
  shows "take 4 (drop (length buffer + 1) buffer') = Uint32toBytes (ucast (e - 1))"
  using assms
  by (auto simp: WritePayload_def Let_def Uint32toBytes_def split: sum.splits if_splits)

lemma three_world_simps:
  "getDataWithRetry three_world r i e = (if r = 0 \<and> i = 2 then failed_response else ok_response)"
  "submit three_world r payload = (r \<noteq> 0)"
  "Success failed_response = False"
  by (simp_all add: three_world_def failed_response_def)

lemma WritePayload_three:
  "WritePayload three_world buffer e (Value ok_response) =
     Inr (Inr (buffer @ entry_with_epoch (Uint32toBytes (ucast (e - 1)))))"
  by (simp add: WritePayload_def three_world_def ok_response_def entry_with_epoch_def
      Uint16toBytes_def Let_def)

lemma upt3: "[0..<3] = [0, 1, 2]"
  by (simp add: upt_rec)

lemma collect_three_round0:
  "collect_round three_world 0 10 [0..<length (subProtocols three_submitter)]
     (selector three_submitter) {0, 1, 2} =
   Inr ([4, 4, 4, 4] @ entry_with_epoch [0, 0, 0, 8] @ entry_with_epoch [0, 0, 0, 8], {2})"
proof -
  have s: "{0, 1, 2} - {0} - {Suc 0} = {2::nat}" by auto
  show ?thesis
    by (simp add: three_submitter_def upt3 WritePayload_three three_world_simps one_world_simps
        Let_def Uint32toBytes_def s)
qed

lemma collect_three_round1:
  "collect_round three_world 1 10 [0..<length (subProtocols three_submitter)]
     (selector three_submitter) {0, 1, 2} =
   Inr ([4, 4, 4, 4] @ entry_with_epoch [0, 0, 0, 8] @ entry_with_epoch [0, 0, 0, 8] @
        entry_with_epoch [0, 0, 0, 8], {})"
proof -
  have s: "{0, 1, 2} - {0} - {Suc 0} - {2} = ({} :: nat set)" by auto
  show ?thesis
    by (simp add: three_submitter_def upt3 WritePayload_three three_world_simps one_world_simps
        Let_def Uint32toBytes_def s)
qed

lemma launched_three: "launched three_submitter 10 {0, 1, 2} = [Fetch 0 9, Fetch 1 9, Fetch 2 9]"
  by (simp add: launched_def three_submitter_def upt3)

lemma sig_rounds_three_round1:
  "sig_rounds three_world three_submitter 10 1 {0, 1, 2} =
     Inr ({}, [Fetch 0 9, Fetch 1 9, Fetch 2 9,
               Submit ([4, 4, 4, 4] @ entry_with_epoch [0, 0, 0, 8] @ entry_with_epoch [0, 0, 0, 8] @
                       entry_with_epoch [0, 0, 0, 8]) True])"
proof -
  have r: "sig_round three_world three_submitter 10 1 {0, 1, 2} =
     Inr ({}, [Fetch 0 9, Fetch 1 9, Fetch 2 9,
               Submit ([4, 4, 4, 4] @ entry_with_epoch [0, 0, 0, 8] @ entry_with_epoch [0, 0, 0, 8] @
                       entry_with_epoch [0, 0, 0, 8]) True])"
    unfolding sig_round_def Let_def collect_three_round1 launched_three
    by (simp add: three_world_simps)
  have m: "maxRounds three_submitter = 2" by (simp add: three_submitter_def)
  have e: "sig_rounds three_world three_submitter 10 (1 + 1) {} = Inr ({}, [])"
    by (subst sig_rounds.simps) simp
  show ?thesis
    apply (subst sig_rounds.simps)
    apply (simp only: r e sum.case prod.case)
    apply (simp add: m)
    done
qed

subsection \<open>Claim C1: the epoch field of an entry\<close>

text \<open>
  C1. The claim says the entry carries at offset 1 the target epoch \<open>e - 1\<close>.
  \<open>RunEpoch\<close> passes \<open>currentEpoch-1\<close> to \<open>WritePayload\<close>, which subtracts 1 again:
  for the tick 10 the fetch asks for epoch 9, and the entry in the submitted payload
  carries 8 where the four bytes of 9 were claimed.
\<close>

theorem RunEpoch_epoch_field_evaluation:
  "SignatureSubmitter_RunEpoch one_world one_submitter 10 =
     Inr ({}, [Fetch 0 9, Submit ([4, 4, 4, 4] @ entry_with_epoch [0, 0, 0, 8]) True]) \<and>
   take 4 (drop 1 (entry_with_epoch [0, 0, 0, 8])) = [0, 0, 0, 8] \<and>
   Uint32toBytes (ucast (10 - 1 :: 64 word)) = [0, 0, 0, 9]"
proof -
  have c: "collect_round one_world 0 10 [0..<length (subProtocols one_submitter)]
             (selector one_submitter) {0..<length (subProtocols one_submitter)} =
           Inr ([4, 4, 4, 4] @ entry_with_epoch [0, 0, 0, 8], {})"
    by (simp add: one_submitter_def WritePayload_one one_world_simps Let_def Uint32toBytes_def)
  have r: "sig_round one_world one_submitter 10 0 {0..<length (subProtocols one_submitter)} =
           Inr ({}, [Fetch 0 9, Submit ([4, 4, 4, 4] @ entry_with_epoch [0, 0, 0, 8]) True])"
    unfolding sig_round_def Let_def c
    by (simp add: one_submitter_def one_world_simps launched_def)
  have "SignatureSubmitter_RunEpoch one_world one_submitter 10 =
     Inr ({}, [Fetch 0 9, Submit ([4, 4, 4, 4] @ entry_with_epoch [0, 0, 0, 8]) True])"
    unfolding SignatureSubmitter_RunEpoch_def
    by (subst sig_rounds.simps, subst r, subst sig_rounds.simps) (simp add: one_submitter_def)
  moreover have "take 4 (drop 1 (entry_with_epoch [0, 0, 0, 8])) = [0, 0, 0, 8]"
    by (simp add: entry_with_epoch_def)
  moreover have "Uint32toBytes (ucast (10 - 1 :: 64 word)) = [0, 0, 0, 9]"
    by (simp add: Uint32toBytes_def)
  ultimately show ?thesis by simp
qed

subsection \<open>Claim C4: a failed submission restores the outstanding set\<close>

text \<open>
  C4. In a round that starts with the outstanding set \<open>P\<close> and collects the buffer
  \<open>buffer\<close>, leaving \<open>remaining\<close> outstanding: if an entry was appended
  (\<open>remaining \<noteq> P\<close>) and the submission fails, the round ends with \<open>P\<close> outstanding
  again, and when a further round is allowed it runs on exactly \<open>P\<close>; if no entry was
  appended, nothing is submitted.
\<close>

theorem sig_round_restores_outstanding:
  assumes "finite P"
    and "collect_round w r e [0..<length (subProtocols s)] (selector s) P = Inr (buffer, remaining)"
  shows "(remaining \<noteq> P \<and> \<not> submit w r buffer \<longrightarrow>
            sig_round w s e r P = Inr (P, launched s e P @ [Submit buffer False])) \<and>
         (remaining \<noteq> P \<and> \<not> submit w r buffer \<and> int r < maxRounds s \<longrightarrow>
            sig_rounds w s e r P =
              (case sig_rounds w s e (r + 1) P of
                 Inl p \<Rightarrow> Inl p
               | Inr (final, evs) \<Rightarrow>
                   Inr (final, (launched s e P @ [Submit buffer False]) @ evs))) \<and>
         (remaining = P \<longrightarrow>
            sig_round w s e r P = Inr (P, launched s e P @ [NoNewData]))"
proof -
  have sub: "remaining \<subseteq> P" using collect_round_subset[OF assms(2)] .
  have lt: "card remaining < card P \<longleftrightarrow> remaining \<noteq> P"
    by (rule card_less_iff_neq[OF assms(1) sub])
  have a: "sig_round w s e r P = Inr (P, launched s e P @ [Submit buffer False])"
    if "remaining \<noteq> P" "\<not> submit w r buffer"
    using that lt by (simp add: sig_round_def assms(2))
  have b: "sig_round w s e r P = Inr (P, launched s e P @ [NoNewData])" if "remaining = P"
    using that lt by (simp add: sig_round_def assms(2))
  have c: "sig_rounds w s e r P =
              (case sig_rounds w s e (r + 1) P of
                 Inl p \<Rightarrow> Inl p
               | Inr (final, evs) \<Rightarrow>
                   Inr (final, (launched s e P @ [Submit buffer False]) @ evs))"
    if "remaining \<noteq> P" "\<not> submit w r buffer" "int r < maxRounds s"
  proof -
    have "P \<noteq> {}" using that(1) sub by auto
    then have "card P > 0" using assms(1) by (simp add: card_gt_0_iff)
    then show ?thesis using that(3) a[OF that(1,2)]
      by (subst sig_rounds.simps) simp
  qed
  show ?thesis using a b c by blast
qed

text \<open>
  The theorem of C4 at three sub-protocols: in round 0 the fetches 0 and 1 succeed and
  the submission fails, and round 1 fetches 0, 1 and 2 again.
\<close>

theorem sig_round_restores_outstanding_witness:
  "finite {0, 1, 2 :: nat} \<and>
   collect_round three_world 0 10 [0..<length (subProtocols three_submitter)]
     (selector three_submitter) {0, 1, 2} =
     Inr ([4, 4, 4, 4] @ entry_with_epoch [0, 0, 0, 8] @ entry_with_epoch [0, 0, 0, 8], {2}) \<and>
   sig_round three_world three_submitter 10 0 {0, 1, 2} =
     Inr ({0, 1, 2},
          [Fetch 0 9, Fetch 1 9, Fetch 2 9,
           Submit ([4, 4, 4, 4] @ entry_with_epoch [0, 0, 0, 8] @ entry_with_epoch [0, 0, 0, 8])
             False]) \<and>
   sig_rounds three_world three_submitter 10 0 {0, 1, 2} =
     Inr ({},
          [Fetch 0 9, Fetch 1 9, Fetch 2 9,
           Submit ([4, 4, 4, 4] @ entry_with_epoch [0, 0, 0, 8] @ entry_with_epoch [0, 0, 0, 8])
             False,
           Fetch 0 9, Fetch 1 9, Fetch 2 9,
           Submit ([4, 4, 4, 4] @ entry_with_epoch [0, 0, 0, 8] @ entry_with_epoch [0, 0, 0, 8] @
                   entry_with_epoch [0, 0, 0, 8]) True])"
proof -
  have f: "finite {0, 1, 2 :: nat}" by simp
  have ne: "{2} \<noteq> {0, 1, 2 :: nat}" by auto
  have tx: "\<not> submit three_world 0
      ([4, 4, 4, 4] @ entry_with_epoch [0, 0, 0, 8] @ entry_with_epoch [0, 0, 0, 8])"
    by (simp add: three_world_simps)
  have m: "int 0 < maxRounds three_submitter" by (simp add: three_submitter_def)
  note T = sig_round_restores_outstanding[OF f collect_three_round0]
  have 1: "sig_round three_world three_submitter 10 0 {0, 1, 2} =
     Inr ({0, 1, 2},
          [Fetch 0 9, Fetch 1 9, Fetch 2 9,
           Submit ([4, 4, 4, 4] @ entry_with_epoch [0, 0, 0, 8] @ entry_with_epoch [0, 0, 0, 8])
             False])"
    using T ne tx launched_three by simp
  have 2: "sig_rounds three_world three_submitter 10 0 {0, 1, 2} =
     Inr ({},
          [Fetch 0 9, Fetch 1 9, Fetch 2 9,
           Submit ([4, 4, 4, 4] @ entry_with_epoch [0, 0, 0, 8] @ entry_with_epoch [0, 0, 0, 8])
             False,
           Fetch 0 9, Fetch 1 9, Fetch 2 9,
           Submit ([4, 4, 4, 4] @ entry_with_epoch [0, 0, 0, 8] @ entry_with_epoch [0, 0, 0, 8] @
                   entry_with_epoch [0, 0, 0, 8]) True])"
    using T ne tx m launched_three sig_rounds_three_round1 by simp
  show ?thesis using f collect_three_round0 1 2 by simp
qed

subsection \<open>The signing-policy hash: auxiliary facts\<close>

lemma wf_go_append: "wf_slice s \<Longrightarrow> wf_slice (go_append g s xs)"
  by (auto simp: wf_slice_def go_append_def slice_cap_def)

lemma elems_go_append: "wf_slice s \<Longrightarrow> slice_elems (go_append g s xs) = slice_elems s @ xs"
  by (auto simp: wf_slice_def go_append_def slice_elems_def slice_cap_def)

lemma wf_pad_policy: "wf_slice s \<Longrightarrow> wf_slice (pad_policy g s)"
  by (simp add: pad_policy_def wf_go_append)

lemma slen_elems: "wf_slice s \<Longrightarrow> length (slice_elems s) = slen s"
  by (simp add: slice_elems_def wf_slice_def)

lemma elems_pad_policy:
  assumes "wf_slice s"
  shows "slice_elems (pad_policy g s) = zero_pad (slice_elems s)"
proof (cases "slen s mod 32 = 0")
  case True
  then show ?thesis by (simp add: pad_policy_def zero_pad_def slen_elems[OF assms])
next
  case False
  then have "(32 - slen s mod 32) mod 32 = 32 - slen s mod 32" by simp
  then show ?thesis using False
    by (simp add: pad_policy_def zero_pad_def slen_elems[OF assms] elems_go_append[OF assms])
qed

lemma length_zero_pad_mod: "length (zero_pad bs) mod 32 = 0"
proof -
  have "(n + (32 - n mod 32) mod 32) mod 32 = 0" for n :: nat
  proof (cases "n mod 32 = 0")
    case True
    then show ?thesis by simp
  next
    case False
    then have m: "(32 - n mod 32) mod 32 = 32 - n mod 32" by simp
    define q r where "q = n div 32" and "r = n mod 32"
    have n: "n = 32 * q + r" and r: "r < 32" by (simp_all add: q_def r_def)
    have "n + (32 - r) = 32 * (q + 1)" using n r by simp
    then have "(n + (32 - r)) mod 32 = 0" by (metis mod_mult_self1_is_0)
    then have "(n + (32 - n mod 32)) mod 32 = 0" by (simp add: r_def)
    then show ?thesis using m by simp
  qed
  then show ?thesis by (simp add: zero_pad_def)
qed

lemma length_zero_pad_ge: "length bs \<le> length (zero_pad bs)"
  by (simp add: zero_pad_def)

lemma slice_range_in_len:
  assumes "wf_slice s" "lo \<le> hi" "hi \<le> slen s"
  shows "slice_range s lo hi = Inr (take (hi - lo) (drop lo (slice_elems s)))"
proof -
  have "take (hi - lo) (drop lo (take (slen s) (backing s))) = take (hi - lo) (drop lo (backing s))"
    using assms by (simp add: drop_take min_def)
  then show ?thesis using assms by (simp add: slice_range_def slice_cap_def slice_elems_def wf_slice_def)
qed

lemma hash_loop_fold:
  "wf_slice s \<Longrightarrow>
   hash_loop K s i h = Inr (foldl (\<lambda>h i. K (h @ tile (slice_elems s) i)) h [i..<slen s div 32])"
proof (induction K s i h rule: hash_loop.induct)
  case (1 K s i h)
  show ?case
  proof (cases "i < slen s div 32")
    case False
    then show ?thesis by (subst hash_loop.simps) simp
  next
    case True
    then have hi: "(i + 1) * 32 \<le> slen s" by simp
    have sr: "slice_range s (i * 32) ((i + 1) * 32) = Inr (tile (slice_elems s) i)"
      using slice_range_in_len[OF "1.prems" _ hi] by (simp add: tile_def)
    have upt: "[i..<slen s div 32] = i # [i + 1..<slen s div 32]"
      using True by (simp add: upt_conv_Cons)
    have "hash_loop K s i h = hash_loop K s (i + 1) (K (h @ tile (slice_elems s) i))"
      using True sr by (subst hash_loop.simps) simp
    also have "\<dots> = Inr (foldl (\<lambda>h i. K (h @ tile (slice_elems s) i))
         (K (h @ tile (slice_elems s) i)) [i + 1..<slen s div 32])"
      using "1.IH"[OF True sr "1.prems"] .
    finally show ?thesis unfolding upt by simp
  qed
qed

lemma SigningPolicyHash_padded:
  assumes wf: "wf_slice p" and len: "64 \<le> slen p"
  shows "(case slice_range p 0 32 of
        Inl e \<Rightarrow> Inl e
      | Inr tile0 \<Rightarrow>
          (case slice_range p 32 64 of
             Inl e \<Rightarrow> Inl e
           | Inr tile1 \<Rightarrow> hash_loop K p 2 (K (tile0 @ tile1)))) =
     Inr (foldl (\<lambda>h i. K (h @ tile (slice_elems p) i))
            (K (tile (slice_elems p) 0 @ tile (slice_elems p) 1)) [2..<slen p div 32])"
proof -
  have a: "slice_range p 0 32 = Inr (tile (slice_elems p) 0)"
    using slice_range_in_len[OF wf, of 0 32] len by (simp add: tile_def)
  have b: "slice_range p 32 64 = Inr (tile (slice_elems p) 1)"
    using slice_range_in_len[OF wf, of 32 64] len by (simp add: tile_def)
  show ?thesis by (simp add: a b hash_loop_fold[OF wf])
qed

lemma multiple_of_32_above_32:
  fixes n :: nat
  assumes "32 < n" "n mod 32 = 0"
  shows "64 \<le> n"
proof -
  have "32 dvd n" using assms(2) by (simp add: dvd_eq_mod_eq_0)
  then obtain k where k: "n = 32 * k" by (rule dvdE)
  then have "1 < k" using assms(1) by simp
  then have "2 \<le> k" by simp
  then show ?thesis using k by simp
qed

lemma SigningPolicyHash_long:
  assumes wf: "wf_slice s" and len: "32 < slen s"
  shows "SigningPolicyHash K g s = Inr (tiled_keccak K (slice_elems s))"
proof -
  let ?p = "pad_policy g s"
  have wfp: "wf_slice ?p" by (rule wf_pad_policy[OF wf])
  have el: "slice_elems ?p = zero_pad (slice_elems s)" by (rule elems_pad_policy[OF wf])
  have lp: "slen ?p = length (zero_pad (slice_elems s))"
    using slen_elems[OF wfp] el by simp
  have "32 < length (zero_pad (slice_elems s))"
    using length_zero_pad_ge[of "slice_elems s"] slen_elems[OF wf] len by simp
  moreover have "length (zero_pad (slice_elems s)) mod 32 = 0" by (rule length_zero_pad_mod)
  ultimately have "64 \<le> length (zero_pad (slice_elems s))"
    by (rule multiple_of_32_above_32)
  then have l64: "64 \<le> slen ?p" using lp by simp
  show ?thesis
    unfolding SigningPolicyHash_def Let_def SigningPolicyHash_padded[OF wfp l64]
    by (simp add: tiled_keccak_def el lp Let_def)
qed

lemma zero_pad_padded:
  assumes "length bs mod 32 \<noteq> 0"
  shows "zero_pad (bs @ replicate (32 - length bs mod 32) 0) = zero_pad bs"
proof -
  have m: "(32 - length bs mod 32) mod 32 = 32 - length bs mod 32" using assms by simp
  have "length (zero_pad bs) mod 32 = 0" by (rule length_zero_pad_mod)
  then have "(length bs + (32 - length bs mod 32)) mod 32 = 0" by (simp add: zero_pad_def m)
  then show ?thesis by (simp add: zero_pad_def m)
qed

lemma tiled_keccak_padded:
  "length bs mod 32 \<noteq> 0 \<Longrightarrow>
   tiled_keccak K (bs @ replicate (32 - length bs mod 32) 0) = tiled_keccak K bs"
  by (simp add: tiled_keccak_def zero_pad_padded)

lemma pad_policy_aligned: "slen s mod 32 = 0 \<Longrightarrow> pad_policy g s = s"
  by (simp add: pad_policy_def)

lemma slen_go_append: "slen (go_append g s xs) = slen s + length xs"
  by (simp add: go_append_def)

lemma pad_policy_idem: "pad_policy g (pad_policy g s) = pad_policy g s"
proof (cases "slen s mod 32 = 0")
  case True
  then show ?thesis by (simp add: pad_policy_aligned)
next
  case False
  have "slen (pad_policy g s) mod 32 = 0"
  proof -
    define q r where "q = slen s div 32" and "r = slen s mod 32"
    have n: "slen s = 32 * q + r" and r: "r < 32" by (simp_all add: q_def r_def)
    have "slen s + (32 - r) = 32 * (q + 1)" using n r by simp
    then have "(slen s + (32 - r)) mod 32 = 0" by (metis mod_mult_self1_is_0)
    then show ?thesis using False by (simp add: pad_policy_def slen_go_append r_def)
  qed
  then show ?thesis by (rule pad_policy_aligned)
qed

lemma wf_policy70: "wf_slice policy70"
  by (simp add: wf_slice_def policy70_def)

lemma wf_policy96: "wf_slice policy96"
  by (simp add: wf_slice_def policy96_def)

lemma tiled_keccak_policy70: "tiled_keccak length_hash (slice_elems policy70) = [33]"
proof -
  have z: "zero_pad (replicate 70 (1::byte)) = replicate 70 1 @ replicate 26 0"
    by (simp add: zero_pad_def)
  have u: "[2..<3] = [2::nat]" by (simp add: upt_rec)
  show ?thesis
    by (simp add: tiled_keccak_def slice_elems_def policy70_def z u tile_def length_hash_def Let_def)
qed

lemma wf_short:
  "wf_slice policy32" "wf_slice policy32_cap64" "wf_slice empty_policy"
  by (simp_all add: wf_slice_def policy32_def policy32_cap64_def empty_policy_def)

subsection \<open>Claim C7: the hash is the fold over the tiles\<close>

text \<open>
  C7. For every byte slice of more than 32 bytes \<open>SigningPolicyHash\<close> returns the left
  fold over the 32-byte tiles of the zero-padded input, seeded with the hash of the
  first two tiles. Hence, when the length is not a multiple of 32, a slice \<open>t\<close> that
  holds the same bytes followed by the zero bytes of the partial tile has the same
  hash; and for an input of any length, appending those zero bytes with \<open>append\<close>
  before the call changes nothing.
\<close>

theorem SigningPolicyHash_tiled:
  assumes "wf_slice s"
  shows "(32 < slen s \<longrightarrow> SigningPolicyHash K g s = Inr (tiled_keccak K (slice_elems s))) \<and>
         (32 < slen s \<and> slen s mod 32 \<noteq> 0 \<and> wf_slice t \<and>
          slice_elems t = slice_elems s @ replicate (32 - slen s mod 32) 0 \<longrightarrow>
            SigningPolicyHash K g' t = SigningPolicyHash K g s) \<and>
         (slen s mod 32 \<noteq> 0 \<longrightarrow>
            SigningPolicyHash K g (go_append g s (replicate (32 - slen s mod 32) 0)) =
            SigningPolicyHash K g s)"
proof (intro conjI impI)
  assume "32 < slen s"
  then show "SigningPolicyHash K g s = Inr (tiled_keccak K (slice_elems s))"
    by (rule SigningPolicyHash_long[OF assms])
next
  assume a: "32 < slen s \<and> slen s mod 32 \<noteq> 0 \<and> wf_slice t \<and>
          slice_elems t = slice_elems s @ replicate (32 - slen s mod 32) 0"
  then have wt: "wf_slice t" by simp
  have "length (slice_elems s) \<le> length (slice_elems t)" using a by simp
  then have "slen s \<le> slen t" using slen_elems[OF wt] slen_elems[OF assms] by simp
  then have lt: "32 < slen t" using a by simp
  have "SigningPolicyHash K g' t = Inr (tiled_keccak K (slice_elems t))"
    by (rule SigningPolicyHash_long[OF wt lt])
  also have "\<dots> = Inr (tiled_keccak K (slice_elems s))"
    using a tiled_keccak_padded[of "slice_elems s" K] slen_elems[OF assms] by simp
  also have "\<dots> = SigningPolicyHash K g s"
    using SigningPolicyHash_long[OF assms, of K g] a by simp
  finally show "SigningPolicyHash K g' t = SigningPolicyHash K g s" .
next
  assume "slen s mod 32 \<noteq> 0"
  then have p: "go_append g s (replicate (32 - slen s mod 32) 0) = pad_policy g s"
    by (simp add: pad_policy_def)
  show "SigningPolicyHash K g (go_append g s (replicate (32 - slen s mod 32) 0)) =
            SigningPolicyHash K g s"
    unfolding p by (simp add: SigningPolicyHash_def pad_policy_idem)
qed

text \<open>The theorem of C7 at a slice of 70 bytes and at the same bytes padded to 96.\<close>

theorem SigningPolicyHash_tiled_witness:
  "wf_slice policy70 \<and> wf_slice policy96 \<and>
   SigningPolicyHash length_hash exact_cap policy70 = Inr [33] \<and>
   SigningPolicyHash length_hash exact_cap policy96 = Inr [33] \<and>
   SigningPolicyHash length_hash exact_cap (go_append exact_cap policy70 (replicate 26 0)) = Inr [33]"
proof -
  have l: "32 < slen policy70" "slen policy70 mod 32 \<noteq> 0" "32 - slen policy70 mod 32 = 26"
    by (simp_all add: policy70_def)
  have e: "slice_elems policy96 = slice_elems policy70 @ replicate (32 - slen policy70 mod 32) 0"
    by (simp add: slice_elems_def policy96_def policy70_def)
  note T = SigningPolicyHash_tiled[OF wf_policy70, of length_hash exact_cap policy96 exact_cap]
  have 1: "SigningPolicyHash length_hash exact_cap policy70 = Inr [33]"
    using T l tiled_keccak_policy70 by simp
  have 2: "SigningPolicyHash length_hash exact_cap policy96 = Inr [33]"
    using T l e wf_policy96 1 by simp
  have 3: "SigningPolicyHash length_hash exact_cap (go_append exact_cap policy70 (replicate 26 0)) = Inr [33]"
    using T l 1 by simp
  show ?thesis using wf_policy70 wf_policy96 1 2 3 by simp
qed

subsection \<open>Claim C9: inputs of at most 32 bytes\<close>

text \<open>
  C9, counterexample. The claim says the function panics for every input of at most 32
  bytes. A slice of 32 bytes with capacity 64 needs no padding, \<open>signingPolicy[32:64]\<close>
  is within its capacity, and the function returns the hash of the 64 cells of the
  array (with the identity for the hash function: those cells). A slice of 31 bytes with
  capacity 31 is padded by \<open>append\<close>; when the runtime allocates 64 cells for it, the
  function again returns a hash, of the 31 bytes, the padding byte and 32 zero cells.
\<close>

theorem SigningPolicyHash_spare_capacity_counterexample:
  "slen policy32_cap64 = 32 \<and>
   SigningPolicyHash (\<lambda>b. b) exact_cap policy32_cap64 = Inr (replicate 32 1 @ replicate 32 0) \<and>
   slen policy31 = 31 \<and> slice_cap policy31 = 31 \<and>
   SigningPolicyHash (\<lambda>b. b) cap64 policy31 = Inr (replicate 31 1 @ [0] @ replicate 32 0)"
proof -
  have a: "SigningPolicyHash (\<lambda>b. b) exact_cap policy32_cap64 =
      Inr (replicate 32 1 @ replicate 32 0)"
    by (simp add: SigningPolicyHash_def pad_policy_def policy32_cap64_def slice_range_def
        slice_cap_def hash_loop.simps Let_def)
  have p: "pad_policy cap64 policy31 = \<lparr>backing = replicate 31 1 @ [0] @ replicate 32 0, slen = 32\<rparr>"
    by (simp add: pad_policy_def go_append_def policy31_def slice_cap_def cap64_def)
  have b: "SigningPolicyHash (\<lambda>b. b) cap64 policy31 = Inr (replicate 31 1 @ [0] @ replicate 32 0)"
    unfolding SigningPolicyHash_def Let_def p
    by (simp add: slice_range_def slice_cap_def hash_loop.simps)
  show ?thesis using a b by (simp add: policy32_cap64_def policy31_def slice_cap_def)
qed

text \<open>
  C9, as amended. For every input of at most 32 bytes the function panics exactly when
  the capacity of the padded slice is below 64; with a capacity of at least 64 it
  returns the hash of the first 64 cells of the array. An input of length 0 or 32 is not
  padded, so it is its own capacity that decides.
\<close>

theorem SigningPolicyHash_short:
  assumes "wf_slice s" and "slen s \<le> 32"
  shows "(slice_cap (pad_policy g s) < 64 \<longrightarrow> SigningPolicyHash K g s = Inl SliceBoundsOutOfRange) \<and>
         (64 \<le> slice_cap (pad_policy g s) \<longrightarrow>
            SigningPolicyHash K g s = Inr (K (take 64 (backing (pad_policy g s))))) \<and>
         (slen s = 0 \<or> slen s = 32 \<longrightarrow> pad_policy g s = s)"
proof -
  let ?p = "pad_policy g s"
  have sl: "slen ?p \<le> 32"
  proof (cases "slen s mod 32 = 0")
    case True
    then show ?thesis using assms(2) by (simp add: pad_policy_def)
  next
    case False
    then have "slen s \<noteq> 32" by auto
    then have "slen s < 32" using assms(2) by simp
    then have "slen s mod 32 = slen s" by simp
    then show ?thesis using False \<open>slen s < 32\<close> by (simp add: pad_policy_def slen_go_append)
  qed
  then have d: "\<not> 2 < slen ?p div 32" by simp
  have loop: "hash_loop K ?p 2 h = Inr h" for h
    using d by (subst hash_loop.simps) simp
  have tk: "take 32 (backing ?p) @ take 32 (drop 32 (backing ?p)) = take 64 (backing ?p)"
    by (metis take_add numeral_Bit0)
  have a: "SigningPolicyHash K g s = Inl SliceBoundsOutOfRange" if "slice_cap ?p < 64"
    using that by (simp add: SigningPolicyHash_def Let_def slice_range_def)
  have b: "SigningPolicyHash K g s = Inr (K (take 64 (backing ?p)))" if "64 \<le> slice_cap ?p"
    using that tk by (simp add: SigningPolicyHash_def Let_def slice_range_def loop)
  have c: "pad_policy g s = s" if "slen s = 0 \<or> slen s = 32"
    using that by (auto simp: pad_policy_def)
  show ?thesis using a b c by blast
qed

text \<open>
  The theorem of C9 at 32 bytes with capacity 32, at the empty slice and at 32 bytes with
  capacity 64.
\<close>

theorem SigningPolicyHash_short_witness:
  "wf_slice policy32 \<and> slen policy32 \<le> 32 \<and>
   SigningPolicyHash length_hash exact_cap policy32 = Inl SliceBoundsOutOfRange \<and>
   wf_slice empty_policy \<and> slen empty_policy \<le> 32 \<and>
   SigningPolicyHash length_hash exact_cap empty_policy = Inl SliceBoundsOutOfRange \<and>
   wf_slice policy32_cap64 \<and> slen policy32_cap64 \<le> 32 \<and>
   SigningPolicyHash length_hash exact_cap policy32_cap64 = Inr [64]"
proof -
  have a: "slen policy32 \<le> 32" "slen policy32 = 0 \<or> slen policy32 = 32" "slice_cap policy32 < 64"
    by (simp_all add: policy32_def slice_cap_def)
  have b: "slen empty_policy \<le> 32" "slen empty_policy = 0 \<or> slen empty_policy = 32"
    "slice_cap empty_policy < 64"
    by (simp_all add: empty_policy_def slice_cap_def)
  have c: "slen policy32_cap64 \<le> 32" "slen policy32_cap64 = 0 \<or> slen policy32_cap64 = 32"
    "64 \<le> slice_cap policy32_cap64" "length_hash (take 64 (backing policy32_cap64)) = [64]"
    by (simp_all add: policy32_cap64_def slice_cap_def length_hash_def)
  note A = SigningPolicyHash_short[OF wf_short(1) a(1), of exact_cap length_hash]
  note B = SigningPolicyHash_short[OF wf_short(3) b(1), of exact_cap length_hash]
  note C = SigningPolicyHash_short[OF wf_short(2) c(1), of exact_cap length_hash]
  have 1: "SigningPolicyHash length_hash exact_cap policy32 = Inl SliceBoundsOutOfRange"
    using A a by simp
  have 2: "SigningPolicyHash length_hash exact_cap empty_policy = Inl SliceBoundsOutOfRange"
    using B b by simp
  have 3: "SigningPolicyHash length_hash exact_cap policy32_cap64 = Inr [64]"
    using C c by simp
  show ?thesis using wf_short a(1) b(1) c(1) 1 2 3 by simp
qed

end
